theory Spec2Isabelle
  imports Complex_Main
begin

section \<open>Errors and genes\<close>

text \<open>The Python exceptions that the modelled functions can raise.\<close>

datatype error = IndexError | ValueError | StopIteration | AttributeError

text \<open>Sequencing of fallible steps: the first exception ends the computation.\<close>

definition ebind :: "error + 'a \<Rightarrow> ('a \<Rightarrow> error + 'b) \<Rightarrow> error + 'b" where
  "ebind r f = (case r of Inl e \<Rightarrow> Inl e | Inr x \<Rightarrow> f x)"

text \<open>Class \<open>Seq\<close>: a gene is a species index and a sequence index within the species.
  Both are used as array indices and are taken to be natural numbers.\<close>

record Seq =
  iSp :: nat
  iSeq :: nat

section \<open>OrthoGroupsSet.OGs\<close>

text \<open>The two fields of \<open>OrthoGroupsSet\<close> that \<open>OGs\<close> reads and writes;
  \<open>ogs_all = None\<close> is the state before the first call.\<close>

record OrthoGroupsSet =
  ogs_all :: "Seq list list option"
  iOgs4 :: nat

text \<open>\<open>next(i for i, og in enumerate(ogs_all) if len(og) < 4)\<close>, started at index \<open>i\<close>.\<close>

fun next_small :: "nat \<Rightarrow> Seq list list \<Rightarrow> error + nat" where
  "next_small i [] = Inl StopIteration"
| "next_small i (og # ogs) = (if length og < 4 then Inr i else next_small (Suc i) ogs)"

text \<open>\<open>OGs(self, qInclAll)\<close>. The argument \<open>loaded\<close> is the list
  \<open>[[Seq(g) for g in og] for og in MCL.GetPredictedOGs(self.clustersFN)]\<close>, which is
  only read on the first call. The object is mutated in place, so the state is returned
  also when an exception is raised (\<open>ogs_all[-1]\<close> of an empty list).\<close>

definition OGs :: "Seq list list \<Rightarrow> OrthoGroupsSet \<Rightarrow> bool \<Rightarrow> (error + Seq list list) \<times> OrthoGroupsSet" where
  "OGs loaded self qInclAll =
     (case ogs_all self of
        Some og_list \<Rightarrow> (Inr (if qInclAll then og_list else take (iOgs4 self) og_list), self)
      | None \<Rightarrow>
          (let self1 = self\<lparr>ogs_all := Some loaded\<rparr> in
           if loaded = [] then (Inl IndexError, self1)
           else (case (if 4 \<le> length (last loaded) then Inr (length loaded)
                       else next_small 0 loaded) of
                   Inl e \<Rightarrow> (Inl e, self1)
                 | Inr k \<Rightarrow>
                     (let self2 = self1\<lparr>iOgs4 := k\<rparr> in
                      (Inr (if qInclAll then loaded else take k loaded), self2)))))"

text \<open>The object as \<open>__init__\<close> leaves it.\<close>

definition OrthoGroupsSet_init :: OrthoGroupsSet where
  "OrthoGroupsSet_init = \<lparr>ogs_all = None, iOgs4 = 0\<rparr>"

text \<open>An input sorted by decreasing orthogroup size, as the clustering writes it.\<close>

definition size_sorted :: "Seq list list \<Rightarrow> bool" where
  "size_sorted ogs = sorted_wrt (\<lambda>a b. length b \<le> length a) ogs"


section \<open>Floating-point values\<close>

text \<open>A \<open>float64\<close> is modelled as a real number or one of the three special values
  of IEEE arithmetic; rounding, overflow and the sign of zero are not modelled.\<close>

datatype fl = Fin real | PInf | NInf | NaN

text \<open>\<open>a > b\<close>: false as soon as one side is NaN.\<close>

fun fgt :: "fl \<Rightarrow> fl \<Rightarrow> bool" where
  "fgt (Fin x) (Fin y) = (y < x)"
| "fgt PInf (Fin y) = True"
| "fgt PInf NInf = True"
| "fgt (Fin x) NInf = True"
| "fgt _ _ = False"

definition flt :: "fl \<Rightarrow> fl \<Rightarrow> bool" where
  "flt a b = fgt b a"

text \<open>\<open>a == b\<close> of the program: NaN is not equal to itself.\<close>

definition feq :: "fl \<Rightarrow> fl \<Rightarrow> bool" where
  "feq a b = (a = b \<and> a \<noteq> NaN)"

fun fneg :: "fl \<Rightarrow> fl" where
  "fneg (Fin x) = Fin (- x)"
| "fneg PInf = NInf"
| "fneg NInf = PInf"
| "fneg NaN = NaN"

fun fadd :: "fl \<Rightarrow> fl \<Rightarrow> fl" where
  "fadd (Fin x) (Fin y) = Fin (x + y)"
| "fadd NaN _ = NaN"
| "fadd _ NaN = NaN"
| "fadd PInf NInf = NaN"
| "fadd NInf PInf = NaN"
| "fadd PInf _ = PInf"
| "fadd _ PInf = PInf"
| "fadd NInf _ = NInf"
| "fadd _ NInf = NInf"

fun fmul :: "fl \<Rightarrow> fl \<Rightarrow> fl" where
  "fmul (Fin x) (Fin y) = Fin (x * y)"
| "fmul NaN _ = NaN"
| "fmul _ NaN = NaN"
| "fmul (Fin x) PInf = (if x = 0 then NaN else if 0 < x then PInf else NInf)"
| "fmul (Fin x) NInf = (if x = 0 then NaN else if 0 < x then NInf else PInf)"
| "fmul PInf (Fin y) = (if y = 0 then NaN else if 0 < y then PInf else NInf)"
| "fmul NInf (Fin y) = (if y = 0 then NaN else if 0 < y then NInf else PInf)"
| "fmul PInf PInf = PInf"
| "fmul NInf NInf = PInf"
| "fmul PInf NInf = NInf"
| "fmul NInf PInf = NInf"

text \<open>\<open>x / 2.0\<close>.\<close>

fun fhalf :: "fl \<Rightarrow> fl" where
  "fhalf (Fin x) = Fin (x / 2)"
| "fhalf v = v"

text \<open>\<open>np.log\<close>: the logarithm of zero is minus infinity, that of a negative number NaN.\<close>

fun np_log :: "fl \<Rightarrow> fl" where
  "np_log (Fin x) = (if 0 < x then Fin (ln x) else if x = 0 then NInf else NaN)"
| "np_log PInf = PInf"
| "np_log NInf = NaN"
| "np_log NaN = NaN"

text \<open>\<open>1./x\<close> on an array element, under \<open>np.errstate(divide='ignore')\<close>: the
  reciprocal of zero is plus infinity and no exception is raised.\<close>

definition np_recip :: "real \<Rightarrow> fl" where
  "np_recip x = (if x = 0 then PInf else Fin (1 / x))"

text \<open>Python's \<open>max(a, b)\<close> and \<open>min(xs)\<close>: the first argument is kept unless a later
  one compares strictly greater (smaller).\<close>

definition pymax :: "fl \<Rightarrow> fl \<Rightarrow> fl" where
  "pymax a b = (if fgt b a then b else a)"

fun pymin_list :: "fl list \<Rightarrow> error + fl" where
  "pymin_list [] = Inl ValueError"
| "pymin_list (x # xs) = Inr (fold (\<lambda>y acc. if flt y acc then y else acc) xs x)"

text \<open>The constants \<open>9e99\<close> and \<open>sliver = 1e-6\<close>.\<close>

definition big :: real where
  "big = 9 * 10 ^ 99"

definition sliver :: real where
  "sliver = 1 / 1000000"

section \<open>Python containers and loops\<close>

text \<open>\<open>xs[i]\<close> for a non-negative index.\<close>

definition nth_err :: "'a list \<Rightarrow> nat \<Rightarrow> error + 'a" where
  "nth_err xs i = (if i < length xs then Inr (xs ! i) else Inl IndexError)"

text \<open>A list comprehension whose element expression can raise.\<close>

fun emap :: "('a \<Rightarrow> error + 'b) \<Rightarrow> 'a list \<Rightarrow> error + 'b list" where
  "emap f [] = Inr []"
| "emap f (x # xs) = ebind (f x) (\<lambda>y. ebind (emap f xs) (\<lambda>ys. Inr (y # ys)))"

text \<open>A \<open>for\<close> loop over a list, threading the loop's variables.\<close>

fun efold :: "('a \<Rightarrow> 's \<Rightarrow> error + 's) \<Rightarrow> 'a list \<Rightarrow> 's \<Rightarrow> error + 's" where
  "efold f [] s = Inr s"
| "efold f (x # xs) s = ebind (f x s) (efold f xs)"

text \<open>A \<open>for\<close> loop that mutates shared memory: when the body raises, the loop stops and
  the memory stays as the writes before the exception left it.\<close>

fun sfold :: "('a \<Rightarrow> 's \<Rightarrow> error option \<times> 's) \<Rightarrow> 'a list \<Rightarrow> 's \<Rightarrow> error option \<times> 's" where
  "sfold f [] s = (None, s)"
| "sfold f (x # xs) s =
     (case f x s of (None, s') \<Rightarrow> sfold f xs s' | (Some e, s') \<Rightarrow> (Some e, s'))"

text \<open>\<open>enumerate(xs)\<close>.\<close>

definition enumerate_py :: "'a list \<Rightarrow> (nat \<times> 'a) list" where
  "enumerate_py xs = zip [0..<length xs] xs"

text \<open>A matrix is a list of rows (a list of \<open>mp.Array\<close>, or a 2-d numpy array).\<close>

type_synonym matrix = "fl list list"

definition square :: "nat \<Rightarrow> matrix \<Rightarrow> bool" where
  "square n m = (length m = n \<and> list_all (\<lambda>r. length r = n) m)"

text \<open>\<open>m[i][j]\<close> and \<open>m[i][j] = v\<close>.\<close>

definition get2 :: "matrix \<Rightarrow> nat \<Rightarrow> nat \<Rightarrow> error + fl" where
  "get2 m i j = ebind (nth_err m i) (\<lambda>r. nth_err r j)"

definition set2 :: "matrix \<Rightarrow> nat \<Rightarrow> nat \<Rightarrow> fl \<Rightarrow> error + matrix" where
  "set2 m i j v =
     (if i < length m \<and> j < length (m ! i) then Inr (m[i := (m ! i)[j := v]])
      else Inl IndexError)"

section \<open>Text output\<close>

definition digit_char :: "nat \<Rightarrow> char" where
  "digit_char d = ''0123456789'' ! d"

text \<open>\<open>"%d" % n\<close> and \<open>str(n)\<close> for a non-negative integer.\<close>

fun str_nat :: "nat \<Rightarrow> string" where
  "str_nat n = (if n < 10 then [digit_char n] else str_nat (n div 10) @ [digit_char (n mod 10)])"

declare str_nat.simps [simp del]

text \<open>\<open>Seq.ToString\<close>: \<open>"%d_%d" % (self.iSp, self.iSeq)\<close>.\<close>

definition ToString :: "Seq \<Rightarrow> string" where
  "ToString g = str_nat (iSp g) @ ''_'' @ str_nat (iSeq g)"

text \<open>Rounding to the nearest integer, ties to the even one, as the conversion of a
  float to a decimal string does.\<close>

definition round_half_even :: "real \<Rightarrow> int" where
  "round_half_even x =
     (let f = \<lfloor>x\<rfloor>; d = x - of_int f
      in if d < 1 / 2 then f else if 1 / 2 < d then f + 1 else if even f then f else f + 1)"

text \<open>\<open>"%.6f" % v\<close>: fixed point with six decimals for a finite value; Python prints
  the special values as \<open>inf\<close>, \<open>-inf\<close> and \<open>nan\<close>.\<close>

definition fmt_fixed6 :: "real \<Rightarrow> string" where
  "fmt_fixed6 x =
     (let q = nat (round_half_even (\<bar>x\<bar> * 1000000));
          fp = str_nat (q mod 1000000)
      in (if x < 0 then ''-'' else []) @ str_nat (q div 1000000) @ ''.''
           @ replicate (6 - length fp) (CHR ''0'') @ fp)"

fun fmt6 :: "fl \<Rightarrow> string" where
  "fmt6 (Fin x) = fmt_fixed6 x"
| "fmt6 PInf = ''inf''"
| "fmt6 NInf = ''-inf''"
| "fmt6 NaN = ''nan''"

text \<open>\<open>" ".join(xs)\<close>.\<close>

fun join_sp :: "string list \<Rightarrow> string" where
  "join_sp [] = []"
| "join_sp [x] = x"
| "join_sp (x # y # ys) = x @ '' '' @ join_sp (y # ys)"

text \<open>Whether a string is a number in fixed-point form with exactly six decimals.\<close>

definition is_digit :: "char \<Rightarrow> bool" where
  "is_digit c = (c \<in> set ''0123456789'')"

definition is_fixed6 :: "string \<Rightarrow> bool" where
  "is_fixed6 s =
     (let t = (case s of [] \<Rightarrow> [] | c # r \<Rightarrow> if c = CHR ''-'' then r else s);
          ip = takeWhile is_digit t;
          rest = dropWhile is_digit t
      in ip \<noteq> [] \<and> length rest = 7 \<and> take 1 rest = ''.'' \<and> list_all is_digit (drop 1 rest))"

section \<open>DendroBLASTTrees: the transform and the Phylip writer\<close>

text \<open>One iteration of the inner loop of \<open>CompleteAndWriteOGMatrices\<close>:
  \<^verbatim>\<open>m[i][j] = -np.log(m[i][j] + m[j][i]); m[j][i] = m[i][j]; max_og = max(max_og, m[i][j])\<close>\<close>

definition transform_cell :: "nat \<Rightarrow> nat \<Rightarrow> matrix \<times> fl \<Rightarrow> error + matrix \<times> fl" where
  "transform_cell i j s =
     (case s of (m, max_og) \<Rightarrow>
        ebind (get2 m i j) (\<lambda>a.
        ebind (get2 m j i) (\<lambda>b.
        ebind (set2 m i j (fneg (np_log (fadd a b)))) (\<lambda>m1.
        ebind (get2 m1 i j) (\<lambda>v.
        ebind (set2 m1 j i v) (\<lambda>m2.
        ebind (get2 m2 i j) (\<lambda>w.
        Inr (m2, pymax max_og w))))))))"

text \<open>The two nested loops, \<open>for i in xrange(n): for j in xrange(i)\<close> with \<open>n = len(m)\<close>
  and \<open>max_og = -9e99\<close> at the start.\<close>

definition transform_og :: "matrix \<Rightarrow> error + matrix \<times> fl" where
  "transform_og m =
     efold (\<lambda>i. efold (\<lambda>j. transform_cell i j) [0..<i]) [0..<length m] (m, Fin (- big))"

text \<open>The value written for one cell by \<open>WritePhylipMatrix\<close>, where \<open>max_og1\<close> is
  \<open>1.1*max_og\<close>: \<open>0. + (m[i][j] if m[i][j] > -9e99 else max_og)\<close>, then
  \<open>sliver if 0 < v < sliver else v\<close>.\<close>

definition phylip_subst :: "fl \<Rightarrow> fl \<Rightarrow> fl" where
  "phylip_subst max_og1 v = fadd (Fin 0) (if fgt v (Fin (- big)) then v else max_og1)"

definition sliver_floor :: "fl \<Rightarrow> fl" where
  "sliver_floor v = (if fgt v (Fin 0) \<and> flt v (Fin sliver) then Fin sliver else v)"

text \<open>\<open>WritePhylipMatrix(m, names, outFN, max_og)\<close>: the result is the text written to
  \<open>outFN\<close>. (When an index is out of range the file is left partly written; only the
  exception is modelled.)\<close>

definition phylip_row :: "matrix \<Rightarrow> string list \<Rightarrow> fl \<Rightarrow> nat \<Rightarrow> nat \<Rightarrow> error + string" where
  "phylip_row m names max_og1 n i =
     ebind (nth_err names i) (\<lambda>name.
     ebind (emap (\<lambda>j. ebind (get2 m i j) (\<lambda>v. Inr (phylip_subst max_og1 v))) [0..<n]) (\<lambda>V.
     Inr (name @ '' '' @ join_sp (map fmt6 (map sliver_floor V)) @ [CHR 0x0A])))"

definition WritePhylipMatrix :: "matrix \<Rightarrow> string list \<Rightarrow> fl \<Rightarrow> error + string" where
  "WritePhylipMatrix m names max_og =
     (let max_og1 = fmul (Fin (11 / 10)) max_og; n = length m
      in ebind (emap (phylip_row m names max_og1 n) [0..<n]) (\<lambda>lines.
         Inr (str_nat n @ [CHR 0x0A] @ concat lines)))"

text \<open>\<open>CompleteAndWriteOGMatrices(ogs, ogMatrices)\<close>: every matrix is transformed in
  place and written; the result is the list of transformed matrices together with the
  text of the file of each orthogroup.\<close>

definition CompleteAndWriteOGMatrices ::
    "Seq list list \<Rightarrow> matrix list \<Rightarrow> error + (matrix \<times> string) list" where
  "CompleteAndWriteOGMatrices ogs ogMatrices =
     emap (\<lambda>(og, m).
        ebind (transform_og m) (\<lambda>(m', max_og).
        ebind (WritePhylipMatrix m' (map ToString og) max_og) (\<lambda>file.
        Inr (m', file))))
       (zip ogs ogMatrices)"

text \<open>The two kinds of object that the program passes as an orthogroup matrix: the list
  of \<open>mp.Array\<close> rows that \<open>GetOGMatrices_FullParallel\<close> allocates, which has no attribute
  \<open>shape\<close>, and a two-dimensional numpy array.\<close>

datatype og_matrix = ArrayRows matrix | NdArray matrix

text \<open>One iteration of the inner loop of \<open>CompleteOGMatrices\<close>, which reads the numpy
  array \<open>m\<close> and writes the fresh array \<open>m2\<close>:
  \<^verbatim>\<open>m2[i, j] = -np.log(m[i,j] + m[j,i]); m2[j, i] = m2[i, j]; max_og = max(max_og, m2[i,j])\<close>\<close>

definition complete_cell :: "matrix \<Rightarrow> nat \<Rightarrow> nat \<Rightarrow> matrix \<times> fl \<Rightarrow> error + matrix \<times> fl" where
  "complete_cell m i j s =
     (case s of (m2, max_og) \<Rightarrow>
        ebind (get2 m i j) (\<lambda>a.
        ebind (get2 m j i) (\<lambda>b.
        ebind (set2 m2 i j (fneg (np_log (fadd a b)))) (\<lambda>m3.
        ebind (get2 m3 i j) (\<lambda>v.
        ebind (set2 m3 j i v) (\<lambda>m4.
        ebind (get2 m4 i j) (\<lambda>w.
        Inr (m4, pymax max_og w))))))))"

text \<open>The body of the loop of \<open>CompleteOGMatrices\<close> for one numpy array:
  \<open>n = m.shape[0]\<close>, \<open>m2 = np.zeros(m.shape)\<close>, \<open>max_og = -9e99\<close>, then the two loops.\<close>

definition complete_og :: "matrix \<Rightarrow> error + matrix" where
  "complete_og m =
     (let n = length m;
          zeros = map (\<lambda>r. replicate (length r) (Fin 0)) m
      in ebind (efold (\<lambda>i. efold (\<lambda>j. complete_cell m i j) [0..<i]) [0..<n] (zeros, Fin (- big)))
           (\<lambda>(m2, max_og). Inr m2))"

text \<open>\<open>CompleteOGMatrices(ogs, ogMatrices)\<close>: the loop over \<open>zip(ogs, ogMatrices)\<close>, which
  collects the new matrices. On a list of \<open>mp.Array\<close> rows \<open>m.shape\<close> raises
  AttributeError.\<close>

definition CompleteOGMatrices :: "Seq list list \<Rightarrow> og_matrix list \<Rightarrow> error + matrix list" where
  "CompleteOGMatrices ogs ogMatrices =
     emap (\<lambda>(og, m).
             (case m of
                ArrayRows rows \<Rightarrow> Inl AttributeError
              | NdArray a \<Rightarrow> complete_og a))
       (zip ogs ogMatrices)"

section \<open>DendroBLASTTrees: species distances\<close>

text \<open>\<open>itertools.combinations(xs, 2)\<close>.\<close>

fun combinations2 :: "'a list \<Rightarrow> ('a \<times> 'a) list" where
  "combinations2 [] = []"
| "combinations2 (x # xs) = map (Pair x) xs @ combinations2 xs"

text \<open>\<open>spDict[sp]\<close> of \<open>SpeciesTreeDistances\<close>: the positions in \<open>og\<close> of the genes of
  species \<open>sp\<close>, in increasing order (the empty list for a species without a gene).\<close>

definition spDict :: "Seq list \<Rightarrow> nat \<Rightarrow> nat list" where
  "spDict og sp = filter (\<lambda>i. iSp (og ! i) = sp) [0..<length og]"

text \<open>\<open>distances = [m[i][j] for i in spDict[sp1] for j in spDict[sp2]]\<close>.\<close>

definition og_distances :: "Seq list \<Rightarrow> matrix \<Rightarrow> nat \<Rightarrow> nat \<Rightarrow> error + fl list" where
  "og_distances og m sp1 sp2 =
     emap (\<lambda>(i, j). get2 m i j) (List.product (spDict og sp1) (spDict og sp2))"

text \<open>The body of the loop over the orthogroups: every list of \<open>D\<close> gets the minimum of
  the distances of its species pair, when there is a distance.\<close>

definition add_og_distances ::
    "(nat \<times> nat) list \<Rightarrow> Seq list \<times> matrix \<Rightarrow> fl list list \<Rightarrow> error + fl list list" where
  "add_og_distances spPairs ogm D =
     (case ogm of (og, m) \<Rightarrow>
        emap (\<lambda>((sp1, sp2), d_list).
               ebind (og_distances og m sp1 sp2) (\<lambda>distances.
               if 0 < length distances
               then ebind (pymin_list distances) (\<lambda>x. Inr (d_list @ [x]))
               else Inr d_list))
          (zip spPairs D))"

definition SpeciesTreeDistances ::
    "nat list \<Rightarrow> Seq list list \<Rightarrow> matrix list \<Rightarrow> nat \<Rightarrow> error + fl list list \<times> (nat \<times> nat) list" where
  "SpeciesTreeDistances speciesToUse ogs ogMatrices method =
     (let spPairs = combinations2 speciesToUse;
          D = replicate (length spPairs) []
      in if method = 0
         then ebind (efold (add_og_distances spPairs) (zip ogs ogMatrices) D) (\<lambda>D'. Inr (D', spPairs))
         else Inr (D, spPairs))"

text \<open>\<open>np.median\<close>: NaN for an empty list or a list with a NaN; otherwise the middle
  element of the sorted list, or the mean of the two middle elements.\<close>

fun insort_fl :: "fl \<Rightarrow> fl list \<Rightarrow> fl list" where
  "insort_fl v [] = [v]"
| "insort_fl v (y # ys) = (if fgt v y then y # insort_fl v ys else v # y # ys)"

definition sort_fl :: "fl list \<Rightarrow> fl list" where
  "sort_fl xs = foldr insort_fl xs []"

definition np_median :: "fl list \<Rightarrow> fl" where
  "np_median d =
     (if d = [] \<or> NaN \<in> set d then NaN
      else (let s = sort_fl d; n = length s
            in if odd n then s ! (n div 2)
               else fhalf (fadd (s ! (n div 2 - 1)) (s ! (n div 2)))))"

text \<open>\<open>xs.index(x)\<close>.\<close>

fun index_of :: "'a list \<Rightarrow> 'a \<Rightarrow> error + nat" where
  "index_of [] x = Inl ValueError"
| "index_of (y # ys) x = (if y = x then Inr 0 else ebind (index_of ys x) (\<lambda>k. Inr (Suc k)))"

text \<open>The matrix \<open>M\<close> that \<open>PrepareSpeciesTreeCommand\<close> fills from \<open>D\<close> and \<open>spPairs\<close>.\<close>

definition species_matrix :: "nat list \<Rightarrow> fl list list \<Rightarrow> (nat \<times> nat) list \<Rightarrow> error + matrix" where
  "species_matrix speciesToUse D spPairs =
     (let n = length speciesToUse
      in efold (\<lambda>((sp1, sp2), d) M.
                  ebind (index_of speciesToUse sp1) (\<lambda>a.
                  ebind (index_of speciesToUse sp2) (\<lambda>b.
                  (let x = np_median d
                   in ebind (set2 M a b x) (\<lambda>M1. set2 M1 b a x)))))
           (zip spPairs D) (replicate n (replicate n (Fin 0))))"

text \<open>The text that \<open>PrepareSpeciesTreeCommand\<close> writes to \<open>speciesMatrixFN\<close>:
  \<open>V = [(0. + M[i,j]) for j in range(n)]\<close>, then the floor at \<open>sliver\<close> and \<open>"%.6f"\<close>.\<close>

definition species_row :: "nat list \<Rightarrow> matrix \<Rightarrow> nat \<Rightarrow> nat \<Rightarrow> error + string" where
  "species_row speciesToUse M n i =
     ebind (nth_err speciesToUse i) (\<lambda>sp.
     ebind (emap (\<lambda>j. ebind (get2 M i j) (\<lambda>v. Inr (fadd (Fin 0) v))) [0..<n]) (\<lambda>V.
     Inr (str_nat sp @ '' '' @ join_sp (map fmt6 (map sliver_floor V)) @ [CHR 0x0A])))"

definition write_species_matrix :: "nat list \<Rightarrow> matrix \<Rightarrow> error + string" where
  "write_species_matrix speciesToUse M =
     (let n = length speciesToUse
      in ebind (emap (species_row speciesToUse M n) [0..<n]) (\<lambda>lines.
         Inr (str_nat n @ [CHR 0x0A] @ concat lines)))"

text \<open>\<open>PrepareSpeciesTreeCommand(D, spPairs)\<close>; the two file names come from the file
  handler. The result is the text of the matrix file, the command and the tree file name.\<close>

definition PrepareSpeciesTreeCommand ::
    "nat list \<Rightarrow> string \<Rightarrow> string \<Rightarrow> fl list list \<Rightarrow> (nat \<times> nat) list \<Rightarrow>
     error + string \<times> string \<times> string" where
  "PrepareSpeciesTreeCommand speciesToUse speciesMatrixFN treeFN D spPairs =
     ebind (species_matrix speciesToUse D spPairs) (\<lambda>M.
     ebind (write_species_matrix speciesToUse M) (\<lambda>file.
     Inr (file,
          join_sp ([''fastme'', ''-i'', speciesMatrixFN, ''-o'', treeFN, ''-N'', ''-w'', ''O'']
                   @ (if length speciesToUse < 1000 then [''-s''] else [])),
          treeFN)))"

section \<open>The scatter phase\<close>

text \<open>A sparse score matrix (a scipy \<open>lil_matrix\<close>): the number of columns and, for each
  row, the stored entries as pairs of column and value.\<close>

record lil =
  ncols :: nat
  lil_rows :: "(nat \<times> real) list list"

text \<open>\<open>B[a, b]\<close>: zero where nothing is stored.\<close>

definition lil_get :: "lil \<Rightarrow> nat \<Rightarrow> nat \<Rightarrow> error + real" where
  "lil_get B a b =
     (if a < length (lil_rows B) \<and> b < ncols B
      then Inr (case map_of (lil_rows B ! a) b of None \<Rightarrow> 0 | Some v \<Rightarrow> v)
      else Inl IndexError)"

text \<open>\<open>lil_minmax\<close>: a row without a stored entry keeps the initial \<open>9e99\<close> and \<open>0\<close>.\<close>

definition row_min :: "(nat \<times> real) list \<Rightarrow> real" where
  "row_min r = (case map snd r of [] \<Rightarrow> big | v # vs \<Rightarrow> fold min vs v)"

definition row_max :: "(nat \<times> real) list \<Rightarrow> real" where
  "row_max r = (case map snd r of [] \<Rightarrow> 0 | v # vs \<Rightarrow> fold max vs v)"

definition lil_minmax :: "lil \<Rightarrow> real list \<times> real list" where
  "lil_minmax M = (map row_min (lil_rows M), map row_max (lil_rows M))"

text \<open>\<open>np.minimum\<close> and \<open>np.maximum\<close> on two column vectors, with numpy's broadcasting
  of a vector of length one.\<close>

definition np_zip :: "(real \<Rightarrow> real \<Rightarrow> real) \<Rightarrow> real list \<Rightarrow> real list \<Rightarrow> error + real list" where
  "np_zip f a b =
     (if length a = length b then Inr (map2 f a b)
      else if length a = 1 then Inr (map (f (hd a)) b)
      else if length b = 1 then Inr (map (\<lambda>x. f x (hd b)) a)
      else Inl ValueError)"

text \<open>The loop \<open>for B in Bs\<close> of the worker, which combines the row extremes.\<close>

definition row_extremes :: "nat \<Rightarrow> lil list \<Rightarrow> error + real list \<times> real list" where
  "row_extremes nSeqs_sp1 Bs =
     efold (\<lambda>B (mins, maxes).
              (case lil_minmax B of (m0, m1) \<Rightarrow>
                 ebind (np_zip min mins m0) (\<lambda>mins'.
                 ebind (np_zip max maxes m1) (\<lambda>maxes'.
                 Inr (mins', maxes')))))
       Bs (replicate nSeqs_sp1 big, replicate nSeqs_sp1 0)"

text \<open>The shared memory of the workers: the orthogroup matrices, and (for the proofs) the
  list of the writes made so far, each with orthogroup, row, column and value.\<close>

type_synonym scatter_state = "matrix list \<times> (nat \<times> nat \<times> nat \<times> fl) list"

text \<open>\<open>0.5*max(B[gi.iSeq, gj.iSeq], mins[gi.iSeq]) * maxes_inv[gi.iSeq]\<close>.\<close>

definition scatter_value :: "lil \<Rightarrow> real list \<Rightarrow> fl list \<Rightarrow> Seq \<Rightarrow> Seq \<Rightarrow> error + fl" where
  "scatter_value B mins maxes_inv gi gj =
     ebind (lil_get B (iSeq gi) (iSeq gj)) (\<lambda>b.
     ebind (nth_err mins (iSeq gi)) (\<lambda>mn.
     ebind (nth_err maxes_inv (iSeq gi)) (\<lambda>inv.
     Inr (fmul (Fin (1 / 2 * max b mn)) inv))))"

text \<open>The assignment \<open>m[i][j] = ...\<close> in the innermost loop, for the matrix of orthogroup
  \<open>k\<close>.\<close>

definition scatter_cell ::
    "lil \<Rightarrow> real list \<Rightarrow> fl list \<Rightarrow> nat \<Rightarrow> Seq \<times> nat \<Rightarrow> Seq \<times> nat \<Rightarrow> scatter_state \<Rightarrow>
     error option \<times> scatter_state" where
  "scatter_cell B mins maxes_inv k gi_i gj_j s =
     (case scatter_value B mins maxes_inv (fst gi_i) (fst gj_j) of
        Inl e \<Rightarrow> (Some e, s)
      | Inr v \<Rightarrow>
          (case ebind (nth_err (fst s) k) (\<lambda>m. set2 m (snd gi_i) (snd gj_j) v) of
             Inl e \<Rightarrow> (Some e, s)
           | Inr m' \<Rightarrow> (None, ((fst s)[k := m'], snd s @ [(k, snd gi_i, snd gj_j, v)]))))"

text \<open>\<open>for gi, i in og[iiSp]: for gj, j in og[jjSp]: ...\<close> for one orthogroup.\<close>

definition scatter_og ::
    "nat \<Rightarrow> nat \<Rightarrow> lil \<Rightarrow> real list \<Rightarrow> fl list \<Rightarrow> nat \<times> (Seq \<times> nat) list list \<Rightarrow> scatter_state \<Rightarrow>
     error option \<times> scatter_state" where
  "scatter_og iiSp jjSp B mins maxes_inv kog s =
     (case nth_err (snd kog) iiSp of
        Inl e \<Rightarrow> (Some e, s)
      | Inr gis \<Rightarrow>
          sfold (\<lambda>gi_i s1.
                   (case nth_err (snd kog) jjSp of
                      Inl e \<Rightarrow> (Some e, s1)
                    | Inr gjs \<Rightarrow> sfold (scatter_cell B mins maxes_inv (fst kog) gi_i) gjs s1))
            gis s)"

text \<open>\<open>for jjSp, B in enumerate(Bs): for og, m in zip(ogsPerSpecies, ogMatrices): ...\<close>\<close>

definition scatter_unit ::
    "nat \<Rightarrow> lil list \<Rightarrow> real list \<Rightarrow> fl list \<Rightarrow> (Seq \<times> nat) list list list \<Rightarrow> scatter_state \<Rightarrow>
     error option \<times> scatter_state" where
  "scatter_unit iiSp Bs mins maxes_inv ogsPerSpecies s =
     sfold (\<lambda>jB s1.
              sfold (scatter_og iiSp (fst jB) (snd jB) mins maxes_inv)
                (zip [0..<length (fst s1)] ogsPerSpecies) s1)
       (enumerate_py Bs) s"

text \<open>One unit of work of \<open>Worker_OGMatrices_ReadBLASTAndUpdateDistances\<close>, for the queue
  item \<open>(iiSp, sp1, nSeqs_sp1)\<close>. \<open>GetBLAST6Scores sp1 sp2\<close> stands for
  \<open>BlastFileProcessor.GetBLAST6Scores(seqsInfo, fileInfo, sp1, sp2, qExcludeSelfHits = False,
  qDoubleBlast = qDoubleBlast)\<close>, which is called for every \<open>sp2\<close> in \<open>speciesToUse\<close>.\<close>

definition Worker_unit ::
    "(nat \<Rightarrow> nat \<Rightarrow> error + lil) \<Rightarrow> nat list \<Rightarrow> (Seq \<times> nat) list list list \<Rightarrow>
     nat \<times> nat \<times> nat \<Rightarrow> scatter_state \<Rightarrow> error option \<times> scatter_state" where
  "Worker_unit GetBLAST6Scores speciesToUse ogsPerSpecies cmd s =
     (case cmd of (iiSp, sp1, nSeqs_sp1) \<Rightarrow>
        (case emap (\<lambda>sp2. GetBLAST6Scores sp1 sp2) speciesToUse of
           Inl e \<Rightarrow> (Some e, s)
         | Inr Bs \<Rightarrow>
             (case row_extremes nSeqs_sp1 Bs of
                Inl e \<Rightarrow> (Some e, s)
              | Inr (mins, maxes) \<Rightarrow>
                  scatter_unit iiSp Bs mins (map np_recip maxes) ogsPerSpecies s)))"

text \<open>A worker takes items from the queue until an exception ends it or the queue is
  empty.\<close>

definition Worker_OGMatrices_ReadBLASTAndUpdateDistances ::
    "(nat \<Rightarrow> nat \<Rightarrow> error + lil) \<Rightarrow> nat list \<Rightarrow> (Seq \<times> nat) list list list \<Rightarrow>
     (nat \<times> nat \<times> nat) list \<Rightarrow> scatter_state \<Rightarrow> error option \<times> scatter_state" where
  "Worker_OGMatrices_ReadBLASTAndUpdateDistances GetBLAST6Scores speciesToUse ogsPerSpecies cmds s =
     sfold (Worker_unit GetBLAST6Scores speciesToUse ogsPerSpecies) cmds s"

text \<open>What \<open>GetOGMatrices_FullParallel\<close> prepares: the genes of every orthogroup by
  species, each with its position in the orthogroup; the zero matrices; the work queue,
  one item per species. The processes that share the queue are modelled by one worker
  that takes the items in the order of the queue.\<close>

definition ogsPerSpecies_of :: "nat list \<Rightarrow> Seq list list \<Rightarrow> (Seq \<times> nat) list list list" where
  "ogsPerSpecies_of speciesToUse ogs =
     map (\<lambda>og. map (\<lambda>sp. filter (\<lambda>gi. iSp (fst gi) = sp) (map (\<lambda>ig. (snd ig, fst ig)) (enumerate_py og)))
                 speciesToUse) ogs"

definition zero_matrices :: "Seq list list \<Rightarrow> matrix list" where
  "zero_matrices ogs = map (\<lambda>og. replicate (length og) (replicate (length og) (Fin 0))) ogs"

definition cmd_queue :: "nat list \<Rightarrow> (nat \<Rightarrow> nat) \<Rightarrow> (nat \<times> nat \<times> nat) list" where
  "cmd_queue speciesToUse nSeqs = map (\<lambda>isp. (fst isp, snd isp, nSeqs (snd isp))) (enumerate_py speciesToUse)"

definition GetOGMatrices_FullParallel ::
    "(nat \<Rightarrow> nat \<Rightarrow> error + lil) \<Rightarrow> nat list \<Rightarrow> (nat \<Rightarrow> nat) \<Rightarrow> Seq list list \<Rightarrow>
     error option \<times> scatter_state" where
  "GetOGMatrices_FullParallel GetBLAST6Scores speciesToUse nSeqs ogs =
     Worker_OGMatrices_ReadBLASTAndUpdateDistances GetBLAST6Scores speciesToUse
       (ogsPerSpecies_of speciesToUse ogs) (cmd_queue speciesToUse nSeqs) (zero_matrices ogs, [])"

section \<open>Notions used in the proofs\<close>

text \<open>The matrix after \<open>m[i][j] = v\<close>.\<close>

definition upd2 :: "matrix \<Rightarrow> nat \<Rightarrow> nat \<Rightarrow> fl \<Rightarrow> matrix" where
  "upd2 m i j v = m[i := (m ! i)[j := v]]"

text \<open>The value that the transform stores for the pair of row \<open>i\<close> and column \<open>j\<close>.\<close>

definition tval :: "matrix \<Rightarrow> nat \<Rightarrow> nat \<Rightarrow> fl" where
  "tval m i j = fneg (np_log (fadd (m ! i ! j) (m ! j ! i)))"

text \<open>The matrix \<open>m'\<close> after the inner loop of the transform has run, for row \<open>i\<close>, over
  the columns in \<open>J\<close>: the pairs of row \<open>i\<close> with \<open>J\<close> are transformed, every other cell is as in \<open>m\<close>.\<close>

definition row_post :: "nat \<Rightarrow> nat \<Rightarrow> nat set \<Rightarrow> matrix \<Rightarrow> matrix \<Rightarrow> bool" where
  "row_post n i J m m' =
     (square n m' \<and>
      (\<forall>b \<in> J. m' ! i ! b = tval m i b \<and> m' ! b ! i = tval m i b) \<and>
      (\<forall>a<n. \<forall>b<n. (a = i \<longrightarrow> b \<notin> J) \<longrightarrow> (b = i \<longrightarrow> a \<notin> J) \<longrightarrow> m' ! a ! b = m ! a ! b))"

text \<open>The matrix \<open>m'\<close> after the outer loop has run over the rows in \<open>I\<close>.\<close>

definition tri_post :: "nat \<Rightarrow> nat set \<Rightarrow> matrix \<Rightarrow> matrix \<Rightarrow> bool" where
  "tri_post n I m m' =
     (square n m' \<and>
      (\<forall>a \<in> I. \<forall>b<a. m' ! a ! b = tval m a b \<and> m' ! b ! a = tval m a b) \<and>
      (\<forall>a<n. \<forall>b<n. (b < a \<longrightarrow> a \<notin> I) \<longrightarrow> (a < b \<longrightarrow> b \<notin> I) \<longrightarrow> m' ! a ! b = m ! a ! b))"

text \<open>A raw contribution as the scatter phase leaves it: not negative, possibly infinite.\<close>

fun nonneg :: "fl \<Rightarrow> bool" where
  "nonneg (Fin x) = (0 \<le> x)"
| "nonneg PInf = True"
| "nonneg _ = False"

text \<open>A property of every cell of a matrix.\<close>

definition all_cells :: "(fl \<Rightarrow> bool) \<Rightarrow> matrix \<Rightarrow> bool" where
  "all_cells P m = list_all (list_all P) m"

text \<open>The value that \<open>WritePhylipMatrix\<close> formats for a cell holding \<open>v\<close>.\<close>

definition phylip_cell :: "fl \<Rightarrow> fl \<Rightarrow> fl" where
  "phylip_cell max_og v = sliver_floor (phylip_subst (fmul (Fin (11 / 10)) max_og) v)"

text \<open>The value that the writer of the species matrix formats for a cell holding \<open>v\<close>.\<close>

definition species_cell :: "fl \<Rightarrow> fl" where
  "species_cell v = sliver_floor (fadd (Fin 0) v)"

text \<open>The values that \<open>max_og\<close> can take in the transform.\<close>

fun max_ok :: "fl \<Rightarrow> bool" where
  "max_ok (Fin x) = (- big \<le> x)"
| "max_ok PInf = True"
| "max_ok _ = False"

text \<open>The fresh matrix \<open>m'\<close> of \<open>CompleteOGMatrices\<close> after the inner loop has run, for row
  \<open>i\<close>, over the columns in \<open>J\<close>, reading \<open>src\<close> and starting from \<open>m0\<close>.\<close>

definition crow_post :: "nat \<Rightarrow> nat \<Rightarrow> nat set \<Rightarrow> matrix \<Rightarrow> matrix \<Rightarrow> matrix \<Rightarrow> bool" where
  "crow_post n i J src m0 m' =
     (square n m' \<and>
      (\<forall>b \<in> J. m' ! i ! b = tval src i b \<and> m' ! b ! i = tval src i b) \<and>
      (\<forall>a<n. \<forall>b<n. (a = i \<longrightarrow> b \<notin> J) \<longrightarrow> (b = i \<longrightarrow> a \<notin> J) \<longrightarrow> m' ! a ! b = m0 ! a ! b))"

text \<open>The same after the outer loop has run over the rows in \<open>I\<close>.\<close>

definition ctri_post :: "nat \<Rightarrow> nat set \<Rightarrow> matrix \<Rightarrow> matrix \<Rightarrow> matrix \<Rightarrow> bool" where
  "ctri_post n I src m0 m' =
     (square n m' \<and>
      (\<forall>a \<in> I. \<forall>b<a. m' ! a ! b = tval src a b \<and> m' ! b ! a = tval src a b) \<and>
      (\<forall>a<n. \<forall>b<n. (b < a \<longrightarrow> a \<notin> I) \<longrightarrow> (a < b \<longrightarrow> b \<notin> I) \<longrightarrow> m' ! a ! b = m0 ! a ! b))"

section \<open>Properties of OGs\<close>

lemma next_small_takeWhile:
  "\<exists>og \<in> set ogs. length og < 4 \<Longrightarrow>
   next_small i ogs = Inr (i + length (takeWhile (\<lambda>og. 4 \<le> length og) ogs))"
proof (induction ogs arbitrary: i)
  case Nil
  then show ?case by simp
next
  case (Cons og ogs)
  show ?case
  proof (cases "length og < 4")
    case True
    then show ?thesis by simp
  next
    case False
    with Cons.prems have "\<exists>og \<in> set ogs. length og < 4" by auto
    from Cons.IH [OF this, of "Suc i"] False show ?thesis by simp
  qed
qed

lemma OGs_first_call:
  assumes "loaded \<noteq> []"
  shows "fst (OGs loaded OrthoGroupsSet_init False) =
           Inr (if 4 \<le> length (last loaded) then loaded
                else takeWhile (\<lambda>og. 4 \<le> length og) loaded)"
proof (cases "4 \<le> length (last loaded)")
  case True
  with assms show ?thesis
    by (simp add: OGs_def OrthoGroupsSet_init_def)
next
  case False
  with assms have ex: "\<exists>og \<in> set loaded. length og < 4"
    by (metis last_in_set not_le)
  have "take (length (takeWhile (\<lambda>og. 4 \<le> length og) loaded)) loaded
          = takeWhile (\<lambda>og. 4 \<le> length og) loaded"
    by (metis append_eq_conv_conj takeWhile_dropWhile_id)
  with False assms next_small_takeWhile [OF ex, of 0] show ?thesis
    by (simp add: OGs_def OrthoGroupsSet_init_def)
qed

lemma OGs_cached:
  "ogs_all self = Some og_list \<Longrightarrow>
   OGs loaded self qInclAll = (Inr (if qInclAll then og_list else take (iOgs4 self) og_list), self)"
  by (simp add: OGs_def)

lemma OGs_first_state:
  assumes "loaded \<noteq> []"
  shows "snd (OGs loaded OrthoGroupsSet_init q) =
           \<lparr>ogs_all = Some loaded,
            iOgs4 = (if 4 \<le> length (last loaded) then length loaded
                     else length (takeWhile (\<lambda>og. 4 \<le> length og) loaded))\<rparr>"
proof (cases "4 \<le> length (last loaded)")
  case True
  with assms show ?thesis
    by (simp add: OGs_def OrthoGroupsSet_init_def)
next
  case False
  with assms have ex: "\<exists>og \<in> set loaded. length og < 4"
    by (metis last_in_set not_le)
  from False assms next_small_takeWhile [OF ex, of 0] show ?thesis
    by (simp add: OGs_def OrthoGroupsSet_init_def)
qed

lemma OGs_first_call_all:
  assumes "loaded \<noteq> []"
  shows "fst (OGs loaded OrthoGroupsSet_init True) = Inr loaded"
proof (cases "4 \<le> length (last loaded)")
  case True
  with assms show ?thesis
    by (simp add: OGs_def OrthoGroupsSet_init_def)
next
  case False
  with assms have ex: "\<exists>og \<in> set loaded. length og < 4"
    by (metis last_in_set not_le)
  from False assms next_small_takeWhile [OF ex, of 0] show ?thesis
    by (simp add: OGs_def OrthoGroupsSet_init_def)
qed

lemma size_sorted_takeWhile:
  "size_sorted ogs \<Longrightarrow>
   takeWhile (\<lambda>og. 4 \<le> length og) ogs = filter (\<lambda>og. 4 \<le> length og) ogs"
proof (induction ogs)
  case Nil
  then show ?case by simp
next
  case (Cons og ogs)
  then have tl: "size_sorted ogs" and le: "\<forall>b \<in> set ogs. length b \<le> length og"
    by (simp_all add: size_sorted_def)
  show ?case
  proof (cases "4 \<le> length og")
    case True
    with Cons.IH [OF tl] show ?thesis by simp
  next
    case False
    with le have "\<forall>b \<in> set ogs. \<not> 4 \<le> length b" by auto
    then have "filter (\<lambda>og. 4 \<le> length og) ogs = []" by (simp add: filter_empty_conv)
    with False show ?thesis by simp
  qed
qed

lemma size_sorted_last_big:
  assumes "size_sorted ogs" and "ogs \<noteq> []" and "4 \<le> length (last ogs)"
  shows "filter (\<lambda>og. 4 \<le> length og) ogs = ogs"
proof -
  have "\<forall>a \<in> set ogs. length (last ogs) \<le> length a"
    using assms(1,2) unfolding size_sorted_def
  proof (induction ogs)
    case Nil
    then show ?case by simp
  next
    case (Cons og ogs)
    then show ?case by (cases "ogs = []") auto
  qed
  with assms(3) have "\<forall>a \<in> set ogs. 4 \<le> length a" by auto
  then show ?thesis by simp
qed

section \<open>Claim C10\<close>

text \<open>C10, as stated for every loaded list, fails on the empty list: \<open>OGs\<close> evaluates
  \<open>self.ogs_all[-1]\<close> and raises IndexError, whatever \<open>qInclAll\<close> is.\<close>

theorem OGs_empty_raises:
  "fst (OGs [] OrthoGroupsSet_init False) = Inl IndexError \<and>
   fst (OGs [] OrthoGroupsSet_init True) = Inl IndexError"
  by (simp add: OGs_def OrthoGroupsSet_init_def)

text \<open>C10 (amended): for every non-empty loaded orthogroup list, the first call of
  \<open>OGs\<close> with \<open>qInclAll\<close> false returns the whole list when the last orthogroup has
  at least 4 genes, and otherwise the prefix that ends just before the first orthogroup with
  fewer than 4 genes; with \<open>qInclAll\<close> true it returns every orthogroup; later calls
  return the same lists from the cached fields; and on an input sorted by decreasing size the
  list returned with \<open>qInclAll\<close> false consists exactly of the orthogroups with at least
  4 genes.\<close>

theorem OGs_prefix:
  assumes "loaded \<noteq> []"
  shows "fst (OGs loaded OrthoGroupsSet_init False) =
           Inr (if 4 \<le> length (last loaded) then loaded
                else takeWhile (\<lambda>og. 4 \<le> length og) loaded)
       \<and> fst (OGs loaded OrthoGroupsSet_init True) = Inr loaded
       \<and> fst (OGs other (snd (OGs loaded OrthoGroupsSet_init q)) False) =
           fst (OGs loaded OrthoGroupsSet_init False)
       \<and> fst (OGs other (snd (OGs loaded OrthoGroupsSet_init q)) True) = Inr loaded
       \<and> (size_sorted loaded \<longrightarrow>
            fst (OGs loaded OrthoGroupsSet_init False) =
              Inr (filter (\<lambda>og. 4 \<le> length og) loaded))"
proof -
  let ?st = "snd (OGs loaded OrthoGroupsSet_init q)"
  have st: "ogs_all ?st = Some loaded"
    and k: "iOgs4 ?st = (if 4 \<le> length (last loaded) then length loaded
                     else length (takeWhile (\<lambda>og. 4 \<le> length og) loaded))"
    by (simp_all add: OGs_first_state [OF assms])
  have tk: "take (length (takeWhile (\<lambda>og. 4 \<le> length og) loaded)) loaded
          = takeWhile (\<lambda>og. 4 \<le> length og) loaded"
    by (metis append_eq_conv_conj takeWhile_dropWhile_id)
  have c3: "fst (OGs other ?st False) = fst (OGs loaded OrthoGroupsSet_init False)"
    by (simp add: OGs_cached [OF st] k tk OGs_first_call [OF assms])
  have c4: "fst (OGs other ?st True) = Inr loaded"
    by (simp add: OGs_cached [OF st])
  have c5: "size_sorted loaded \<longrightarrow>
            fst (OGs loaded OrthoGroupsSet_init False) =
              Inr (filter (\<lambda>og. 4 \<le> length og) loaded)"
    using size_sorted_takeWhile [of loaded] size_sorted_last_big [OF _ assms]
    by (simp add: OGs_first_call [OF assms])
  from OGs_first_call [OF assms] OGs_first_call_all [OF assms] c3 c4 c5
  show ?thesis by blast
qed

theorem OGs_prefix_witness:
  "fst (OGs [replicate 5 \<lparr>iSp = 0, iSeq = 0\<rparr>, replicate 4 \<lparr>iSp = 1, iSeq = 2\<rparr>,
             [\<lparr>iSp = 0, iSeq = 7\<rparr>], []] OrthoGroupsSet_init False)
     = Inr [replicate 5 \<lparr>iSp = 0, iSeq = 0\<rparr>, replicate 4 \<lparr>iSp = 1, iSeq = 2\<rparr>]"
  using OGs_prefix [of "[replicate 5 \<lparr>iSp = 0, iSeq = 0\<rparr>, replicate 4 \<lparr>iSp = 1, iSeq = 2\<rparr>,
             [\<lparr>iSp = 0, iSeq = 7\<rparr>], []]"]
  by (simp add: size_sorted_def)

section \<open>The transform of an orthogroup matrix\<close>

lemma ebind_Inr [simp]: "ebind (Inr x) f = f x"
  by (simp add: ebind_def)

lemma ebind_Inl [simp]: "ebind (Inl e) f = Inl e"
  by (simp add: ebind_def)

lemma square_nth: "square n m \<Longrightarrow> i < n \<Longrightarrow> length (m ! i) = n"
  by (simp add: square_def list_all_length)

lemma square_length: "square n m \<Longrightarrow> length m = n"
  by (simp add: square_def)

lemma get2_square: "square n m \<Longrightarrow> i < n \<Longrightarrow> j < n \<Longrightarrow> get2 m i j = Inr (m ! i ! j)"
  by (simp add: get2_def nth_err_def square_def list_all_length)

lemma set2_square: "square n m \<Longrightarrow> i < n \<Longrightarrow> j < n \<Longrightarrow> set2 m i j v = Inr (upd2 m i j v)"
  by (simp add: set2_def upd2_def square_def list_all_length)

lemma square_upd2: "square n m \<Longrightarrow> square n (upd2 m i j v)"
proof -
  assume sq: "square n m"
  have "length (upd2 m i j v ! a) = n" if "a < n" for a
    using sq that by (cases "a = i") (simp_all add: square_def upd2_def list_all_length)
  with sq show ?thesis
    by (simp add: square_def list_all_length upd2_def)
qed

lemma upd2_nth:
  "square n m \<Longrightarrow> a < n \<Longrightarrow> b < n \<Longrightarrow>
   upd2 m i j v ! a ! b = (if a = i \<and> b = j then v else m ! a ! b)"
  by (cases "a = i"; cases "b = j") (simp_all add: square_def upd2_def list_all_length)

lemma transform_cell_square:
  assumes "square n m" "i < n" "j < n" "i \<noteq> j"
  shows "transform_cell i j (m, mx) =
           Inr (upd2 (upd2 m i j (tval m i j)) j i (tval m i j), pymax mx (tval m i j))"
proof -
  let ?v = "tval m i j"
  let ?m1 = "upd2 m i j ?v"
  let ?m2 = "upd2 ?m1 j i ?v"
  have s1: "square n ?m1" and s2: "square n ?m2"
    using assms(1) by (simp_all add: square_upd2)
  have g1: "get2 ?m1 i j = Inr ?v"
    using assms by (simp add: get2_square [OF s1] upd2_nth)
  have g2: "get2 ?m2 i j = Inr ?v"
    using assms s1 by (simp add: get2_square [OF s2] upd2_nth)
  have e1: "set2 m i j ?v = Inr ?m1"
    using assms by (simp add: set2_square)
  have e2: "set2 ?m1 j i ?v = Inr ?m2"
    using assms by (simp add: set2_square [OF s1])
  have g0: "get2 m i j = Inr (m ! i ! j)" "get2 m j i = Inr (m ! j ! i)"
    using assms by (simp_all add: get2_square)
  have "transform_cell i j (m, mx) =
          ebind (set2 m i j ?v) (\<lambda>m1. ebind (get2 m1 i j) (\<lambda>v. ebind (set2 m1 j i v)
            (\<lambda>m2. ebind (get2 m2 i j) (\<lambda>w. Inr (m2, pymax mx w)))))"
    by (simp add: transform_cell_def g0 tval_def)
  then show ?thesis
    by (simp add: e1 g1 e2 g2)
qed

lemma upd2_pair_ij:
  assumes "square n m" "i < n" "j < n"
  shows "upd2 (upd2 m i j v) j i v ! i ! j = v"
proof -
  have sq1: "square n (upd2 m i j v)"
    using assms(1) by (rule square_upd2)
  have e2: "upd2 m i j v ! i ! j = v"
    using upd2_nth [OF assms(1) assms(2) assms(3), of i j v] by simp
  show ?thesis
    using upd2_nth [OF sq1 assms(2) assms(3), of j i v] e2 by (cases "i = j") simp_all
qed

lemma upd2_pair_ji:
  assumes "square n m" "i < n" "j < n"
  shows "upd2 (upd2 m i j v) j i v ! j ! i = v"
proof -
  have sq1: "square n (upd2 m i j v)"
    using assms(1) by (rule square_upd2)
  show ?thesis
    using upd2_nth [OF sq1 assms(3) assms(2), of j i v] by simp
qed

lemma upd2_pair_other:
  assumes "square n m" "a < n" "b < n" "\<not> (a = i \<and> b = j)" "\<not> (a = j \<and> b = i)"
  shows "upd2 (upd2 m i j v) j i v ! a ! b = m ! a ! b"
proof -
  have sq1: "square n (upd2 m i j v)"
    using assms(1) by (rule square_upd2)
  have "upd2 (upd2 m i j v) j i v ! a ! b = upd2 m i j v ! a ! b"
    using upd2_nth [OF sq1 assms(2) assms(3), of j i v] assms(5) by presburger
  also have "\<dots> = m ! a ! b"
    using upd2_nth [OF assms(1) assms(2) assms(3), of i j v] assms(4) by presburger
  finally show ?thesis .
qed

lemma tval_cong:
  "m1 ! i ! j = m ! i ! j \<Longrightarrow> m1 ! j ! i = m ! j ! i \<Longrightarrow> tval m1 i j = tval m i j"
  by (simp add: tval_def)

lemma row_postI:
  assumes "square n m'"
    and "\<And>b. b \<in> J \<Longrightarrow> m' ! i ! b = tval m i b \<and> m' ! b ! i = tval m i b"
    and "\<And>a b. a < n \<Longrightarrow> b < n \<Longrightarrow> a = i \<longrightarrow> b \<notin> J \<Longrightarrow> b = i \<longrightarrow> a \<notin> J \<Longrightarrow>
           m' ! a ! b = m ! a ! b"
  shows "row_post n i J m m'"
  unfolding row_post_def using assms by blast

lemma row_post_square: "row_post n i J m m' \<Longrightarrow> square n m'"
  unfolding row_post_def by blast

lemma row_post_new:
  "row_post n i J m m' \<Longrightarrow> b \<in> J \<Longrightarrow> m' ! i ! b = tval m i b \<and> m' ! b ! i = tval m i b"
  unfolding row_post_def by blast

lemma row_post_old:
  "row_post n i J m m' \<Longrightarrow> a < n \<Longrightarrow> b < n \<Longrightarrow> a = i \<longrightarrow> b \<notin> J \<Longrightarrow> b = i \<longrightarrow> a \<notin> J \<Longrightarrow>
   m' ! a ! b = m ! a ! b"
  unfolding row_post_def by blast

lemma row_post_refl: "square n m \<Longrightarrow> row_post n i {} m m"
  unfolding row_post_def by blast

lemma inner_loop:
  assumes "square n m" "i < n" "\<forall>j \<in> set js. j < n \<and> j \<noteq> i" "distinct js"
  shows "\<exists>m' mx'. efold (\<lambda>j. transform_cell i j) js (m, mx) = Inr (m', mx') \<and>
           row_post n i (set js) m m'"
  using assms
proof (induction js arbitrary: m mx)
  case Nil
  then show ?case by (simp add: row_post_refl)
next
  case (Cons j js)
  let ?v = "tval m i j"
  let ?m1 = "upd2 (upd2 m i j ?v) j i ?v"
  note sq = Cons.prems(1) and i = Cons.prems(2)
  from Cons.prems(3) have j: "j < n" "j \<noteq> i"
    and js: "\<forall>k \<in> set js. k < n \<and> k \<noteq> i" by simp_all
  from Cons.prems(4) have jn: "j \<notin> set js" and djs: "distinct js" by simp_all
  have sq1: "square n ?m1"
    using sq by (simp add: square_upd2)
  have step: "transform_cell i j (m, mx) = Inr (?m1, pymax mx ?v)"
    using sq i j by (simp add: transform_cell_square)
  from Cons.IH [OF sq1 i js djs, of "pymax mx ?v"]
  obtain m' mx' where run: "efold (\<lambda>j. transform_cell i j) js (?m1, pymax mx ?v) = Inr (m', mx')"
    and post: "row_post n i (set js) ?m1 m'"
    by blast
  have keep: "tval ?m1 i k = tval m i k" if "k \<in> set js" for k
  proof -
    from that js have k: "k < n" "k \<noteq> i" by blast+
    from that jn have kj: "k \<noteq> j" by blast
    have "?m1 ! i ! k = m ! i ! k"
      using sq i k(1) by (rule upd2_pair_other) (use kj j(2) in blast)+
    moreover have "?m1 ! k ! i = m ! k ! i"
      using sq k(1) i by (rule upd2_pair_other) (use kj k(2) in blast)+
    ultimately show ?thesis by (rule tval_cong)
  qed
  have "row_post n i (set (j # js)) m m'"
  proof (rule row_postI)
    show "square n m'" using post by (rule row_post_square)
  next
    fix b assume b: "b \<in> set (j # js)"
    show "m' ! i ! b = tval m i b \<and> m' ! b ! i = tval m i b"
    proof (cases "b \<in> set js")
      case True
      from row_post_new [OF post True] keep [OF True] show ?thesis by presburger
    next
      case False
      with b have bj: "b = j" by simp
      have "m' ! i ! j = ?m1 ! i ! j"
        using post i j(1) by (rule row_post_old) (use jn j(2) in blast)+
      moreover have "m' ! j ! i = ?m1 ! j ! i"
        using post j(1) i by (rule row_post_old) (use jn j(2) in blast)+
      ultimately show ?thesis
        unfolding bj using upd2_pair_ij [OF sq i j(1), of ?v] upd2_pair_ji [OF sq i j(1), of ?v]
        by presburger
    qed
  next
    fix a b
    assume ab: "a < n" "b < n" and na: "a = i \<longrightarrow> b \<notin> set (j # js)"
      and nb: "b = i \<longrightarrow> a \<notin> set (j # js)"
    have "m' ! a ! b = ?m1 ! a ! b"
      using post ab by (rule row_post_old) (use na nb in simp)+
    also have "?m1 ! a ! b = m ! a ! b"
      using sq ab
    proof (rule upd2_pair_other)
      have jmem: "j \<in> set (j # js)" by simp
      show "\<not> (a = i \<and> b = j)" using na jmem by blast
      show "\<not> (a = j \<and> b = i)" using nb jmem by blast
    qed
    finally show "m' ! a ! b = m ! a ! b" .
  qed
  moreover have "efold (\<lambda>j. transform_cell i j) (j # js) (m, mx) = Inr (m', mx')"
    using step run by simp
  ultimately show ?case by blast
qed

lemma tri_postI:
  assumes "square n m'"
    and "\<And>a b. a \<in> I \<Longrightarrow> b < a \<Longrightarrow> m' ! a ! b = tval m a b \<and> m' ! b ! a = tval m a b"
    and "\<And>a b. a < n \<Longrightarrow> b < n \<Longrightarrow> b < a \<longrightarrow> a \<notin> I \<Longrightarrow> a < b \<longrightarrow> b \<notin> I \<Longrightarrow>
           m' ! a ! b = m ! a ! b"
  shows "tri_post n I m m'"
  unfolding tri_post_def using assms by blast

lemma tri_post_square: "tri_post n I m m' \<Longrightarrow> square n m'"
  unfolding tri_post_def by blast

lemma tri_post_new:
  "tri_post n I m m' \<Longrightarrow> a \<in> I \<Longrightarrow> b < a \<Longrightarrow>
   m' ! a ! b = tval m a b \<and> m' ! b ! a = tval m a b"
  unfolding tri_post_def by blast

lemma tri_post_old:
  "tri_post n I m m' \<Longrightarrow> a < n \<Longrightarrow> b < n \<Longrightarrow> b < a \<longrightarrow> a \<notin> I \<Longrightarrow> a < b \<longrightarrow> b \<notin> I \<Longrightarrow>
   m' ! a ! b = m ! a ! b"
  unfolding tri_post_def by blast

lemma tri_post_refl: "square n m \<Longrightarrow> tri_post n {} m m"
  unfolding tri_post_def by blast

lemma inner_loop_upto:
  assumes "square n m" "i < n"
  shows "\<exists>m' mx'. efold (\<lambda>j. transform_cell i j) [0..<i] (m, mx) = Inr (m', mx') \<and>
           row_post n i {..<i} m m'"
proof -
  have A: "\<forall>j \<in> set [0..<i]. j < n \<and> j \<noteq> i"
    using assms(2) by simp
  have B: "distinct [0..<i]" by simp
  have C: "set [0..<i] = {..<i}" by auto
  from inner_loop [OF assms A B, of mx] show ?thesis
    by (simp only: C)
qed

lemma outer_loop:
  assumes "square n m" "\<forall>i \<in> set is. i < n" "distinct is"
  shows "\<exists>m' mx'. efold (\<lambda>i. efold (\<lambda>j. transform_cell i j) [0..<i]) is (m, mx) = Inr (m', mx')
           \<and> tri_post n (set is) m m'"
  using assms
proof (induction "is" arbitrary: m mx)
  case Nil
  then show ?case by (simp add: tri_post_refl)
next
  case (Cons i "is")
  note sq = Cons.prems(1)
  from Cons.prems(2) have i: "i < n" and rest: "\<forall>k \<in> set is. k < n" by simp_all
  from Cons.prems(3) have inot: "i \<notin> set is" and dis: "distinct is" by simp_all
  from inner_loop_upto [OF sq i, of mx]
  obtain m1 mx1 where run1: "efold (\<lambda>j. transform_cell i j) [0..<i] (m, mx) = Inr (m1, mx1)"
    and post1: "row_post n i {..<i} m m1"
    by blast
  have sq1: "square n m1" using post1 by (rule row_post_square)
  from Cons.IH [OF sq1 rest dis, of mx1]
  obtain m' mx' where run: "efold (\<lambda>i. efold (\<lambda>j. transform_cell i j) [0..<i]) is (m1, mx1) = Inr (m', mx')"
    and post: "tri_post n (set is) m1 m'"
    by blast
  have old1: "m1 ! a ! b = m ! a ! b"
    if "a < n" "b < n" "a = i \<longrightarrow> \<not> b < i" "b = i \<longrightarrow> \<not> a < i" for a b
    using post1 that(1,2) by (rule row_post_old) (use that(3,4) in simp)+
  have keep: "tval m1 p q = tval m p q" if p: "p \<in> set is" and qp: "q < p" for p q
  proof -
    from p rest have pn: "p < n" by blast
    from qp pn have qn: "q < n" by linarith
    from p inot have pi: "p \<noteq> i" by blast
    have "m1 ! p ! q = m ! p ! q"
    proof (rule old1 [OF pn qn])
      show "p = i \<longrightarrow> \<not> q < i" using pi by blast
      show "q = i \<longrightarrow> \<not> p < i" using qp by linarith
    qed
    moreover have "m1 ! q ! p = m ! q ! p"
    proof (rule old1 [OF qn pn])
      show "q = i \<longrightarrow> \<not> p < i" using qp by linarith
      show "p = i \<longrightarrow> \<not> q < i" using pi by blast
    qed
    ultimately show ?thesis by (rule tval_cong)
  qed
  have newi: "m' ! i ! b = tval m i b \<and> m' ! b ! i = tval m i b" if bi: "b < i" for b
  proof -
    from bi i have bn: "b < n" by linarith
    have "m' ! i ! b = m1 ! i ! b"
    proof (rule tri_post_old [OF post i bn])
      show "b < i \<longrightarrow> i \<notin> set is" using inot by blast
      show "i < b \<longrightarrow> b \<notin> set is" using bi by linarith
    qed
    moreover have "m' ! b ! i = m1 ! b ! i"
    proof (rule tri_post_old [OF post bn i])
      show "i < b \<longrightarrow> b \<notin> set is" using bi by linarith
      show "b < i \<longrightarrow> i \<notin> set is" using inot by blast
    qed
    moreover have "b \<in> {..<i}" using bi by simp
    note row_post_new [OF post1 this]
    ultimately show ?thesis by presburger
  qed
  have "tri_post n (set (i # is)) m m'"
  proof (rule tri_postI)
    show "square n m'" using post by (rule tri_post_square)
  next
    fix a b assume a: "a \<in> set (i # is)" and ba: "b < a"
    show "m' ! a ! b = tval m a b \<and> m' ! b ! a = tval m a b"
    proof (cases "a \<in> set is")
      case True
      from tri_post_new [OF post True ba] keep [OF True ba] show ?thesis by presburger
    next
      case False
      with a have ai: "a = i" by simp
      from ba show ?thesis unfolding ai by (rule newi)
    qed
  next
    fix a b
    assume ab: "a < n" "b < n" and na: "b < a \<longrightarrow> a \<notin> set (i # is)"
      and nb: "a < b \<longrightarrow> b \<notin> set (i # is)"
    have imem: "i \<in> set (i # is)" by simp
    have sub: "\<And>x. x \<notin> set (i # is) \<Longrightarrow> x \<notin> set is" by simp
    have "m' ! a ! b = m1 ! a ! b"
    proof (rule tri_post_old [OF post ab])
      show "b < a \<longrightarrow> a \<notin> set is" using na sub by blast
      show "a < b \<longrightarrow> b \<notin> set is" using nb sub by blast
    qed
    also have "m1 ! a ! b = m ! a ! b"
    proof (rule old1 [OF ab])
      show "a = i \<longrightarrow> \<not> b < i" using na imem by blast
      show "b = i \<longrightarrow> \<not> a < i" using nb imem by blast
    qed
    finally show "m' ! a ! b = m ! a ! b" .
  qed
  moreover have "efold (\<lambda>i. efold (\<lambda>j. transform_cell i j) [0..<i]) (i # is) (m, mx) = Inr (m', mx')"
    using run1 run by simp
  ultimately show ?case by blast
qed

lemma transform_og_square:
  assumes "square n m"
  shows "\<exists>m' mx'. transform_og m = Inr (m', mx') \<and> tri_post n {..<n} m m'"
proof -
  have len: "length m = n" using assms by (simp add: square_def)
  have A: "\<forall>i \<in> set [0..<n]. i < n" by simp
  have B: "distinct [0..<n]" by simp
  have C: "set [0..<n] = {..<n}" by auto
  from outer_loop [OF assms A B, of "Fin (- big)"] show ?thesis
    by (simp only: C transform_og_def len)
qed

lemma all_cells_nth:
  "all_cells P m \<Longrightarrow> square n m \<Longrightarrow> a < n \<Longrightarrow> b < n \<Longrightarrow> P (m ! a ! b)"
  by (simp add: all_cells_def square_def list_all_length)

lemma fadd_nonneg: "nonneg x \<Longrightarrow> nonneg y \<Longrightarrow> nonneg (fadd x y)"
  by (cases x; cases y) simp_all

lemma neg_log_not_NaN: "nonneg z \<Longrightarrow> fneg (np_log z) \<noteq> NaN"
  by (cases z) simp_all

lemma tval_not_NaN:
  "nonneg (m ! a ! b) \<Longrightarrow> nonneg (m ! b ! a) \<Longrightarrow> tval m a b \<noteq> NaN"
  unfolding tval_def by (intro neg_log_not_NaN fadd_nonneg)

lemma nonneg_not_NaN: "nonneg v \<Longrightarrow> v \<noteq> NaN"
  by (cases v) simp_all

section \<open>Claim C2\<close>

lemma crow_postI:
  assumes "square n m'"
    and "\<And>b. b \<in> J \<Longrightarrow> m' ! i ! b = tval src i b \<and> m' ! b ! i = tval src i b"
    and "\<And>a b. a < n \<Longrightarrow> b < n \<Longrightarrow> a = i \<longrightarrow> b \<notin> J \<Longrightarrow> b = i \<longrightarrow> a \<notin> J \<Longrightarrow>
           m' ! a ! b = m0 ! a ! b"
  shows "crow_post n i J src m0 m'"
  unfolding crow_post_def using assms by blast

lemma crow_post_square: "crow_post n i J src m0 m' \<Longrightarrow> square n m'"
  unfolding crow_post_def by blast

lemma crow_post_new:
  "crow_post n i J src m0 m' \<Longrightarrow> b \<in> J \<Longrightarrow>
   m' ! i ! b = tval src i b \<and> m' ! b ! i = tval src i b"
  unfolding crow_post_def by blast

lemma crow_post_old:
  "crow_post n i J src m0 m' \<Longrightarrow> a < n \<Longrightarrow> b < n \<Longrightarrow> a = i \<longrightarrow> b \<notin> J \<Longrightarrow>
   b = i \<longrightarrow> a \<notin> J \<Longrightarrow> m' ! a ! b = m0 ! a ! b"
  unfolding crow_post_def by blast

lemma crow_post_refl: "square n m \<Longrightarrow> crow_post n i {} src m m"
  unfolding crow_post_def by blast

lemma ctri_postI:
  assumes "square n m'"
    and "\<And>a b. a \<in> I \<Longrightarrow> b < a \<Longrightarrow> m' ! a ! b = tval src a b \<and> m' ! b ! a = tval src a b"
    and "\<And>a b. a < n \<Longrightarrow> b < n \<Longrightarrow> b < a \<longrightarrow> a \<notin> I \<Longrightarrow> a < b \<longrightarrow> b \<notin> I \<Longrightarrow>
           m' ! a ! b = m0 ! a ! b"
  shows "ctri_post n I src m0 m'"
  unfolding ctri_post_def using assms by blast

lemma ctri_post_square: "ctri_post n I src m0 m' \<Longrightarrow> square n m'"
  unfolding ctri_post_def by blast

lemma ctri_post_new:
  "ctri_post n I src m0 m' \<Longrightarrow> a \<in> I \<Longrightarrow> b < a \<Longrightarrow>
   m' ! a ! b = tval src a b \<and> m' ! b ! a = tval src a b"
  unfolding ctri_post_def by blast

lemma ctri_post_old:
  "ctri_post n I src m0 m' \<Longrightarrow> a < n \<Longrightarrow> b < n \<Longrightarrow> b < a \<longrightarrow> a \<notin> I \<Longrightarrow>
   a < b \<longrightarrow> b \<notin> I \<Longrightarrow> m' ! a ! b = m0 ! a ! b"
  unfolding ctri_post_def by blast

lemma ctri_post_refl: "square n m \<Longrightarrow> ctri_post n {} src m m"
  unfolding ctri_post_def by blast

lemma complete_cell_square:
  assumes "square n m" "square n m2" "i < n" "j < n"
  shows "complete_cell m i j (m2, mx) =
           Inr (upd2 (upd2 m2 i j (tval m i j)) j i (tval m i j), pymax mx (tval m i j))"
proof -
  let ?v = "tval m i j"
  let ?m3 = "upd2 m2 i j ?v"
  let ?m4 = "upd2 ?m3 j i ?v"
  have s3: "square n ?m3" using assms(2) by (rule square_upd2)
  have s4: "square n ?m4" using s3 by (rule square_upd2)
  have v3: "?m3 ! i ! j = ?v"
    using upd2_nth [OF assms(2) assms(3) assms(4), of i j ?v] by simp
  have g3: "get2 ?m3 i j = Inr ?v"
    using get2_square [OF s3 assms(3) assms(4)] v3 by simp
  have g4: "get2 ?m4 i j = Inr ?v"
    using get2_square [OF s4 assms(3) assms(4)] upd2_pair_ij [OF assms(2) assms(3) assms(4), of ?v]
    by simp
  have e3: "set2 m2 i j ?v = Inr ?m3"
    using assms(2) assms(3) assms(4) by (rule set2_square)
  have e4: "set2 ?m3 j i ?v = Inr ?m4"
    using s3 assms(4) assms(3) by (rule set2_square)
  have g0: "get2 m i j = Inr (m ! i ! j)" "get2 m j i = Inr (m ! j ! i)"
    using assms by (simp_all add: get2_square)
  have "complete_cell m i j (m2, mx) =
          ebind (set2 m2 i j ?v) (\<lambda>m3. ebind (get2 m3 i j) (\<lambda>v. ebind (set2 m3 j i v)
            (\<lambda>m4. ebind (get2 m4 i j) (\<lambda>w. Inr (m4, pymax mx w)))))"
    by (simp add: complete_cell_def g0 tval_def)
  then show ?thesis
    by (simp add: e3 g3 e4 g4)
qed

lemma complete_inner_loop:
  assumes "square n src" "square n m2" "i < n" "\<forall>j \<in> set js. j < n \<and> j \<noteq> i" "distinct js"
  shows "\<exists>m' mx'. efold (\<lambda>j. complete_cell src i j) js (m2, mx) = Inr (m', mx') \<and>
           crow_post n i (set js) src m2 m'"
  using assms(2,4,5)
proof (induction js arbitrary: m2 mx)
  case Nil
  then show ?case by (simp add: crow_post_refl)
next
  case (Cons j js)
  let ?v = "tval src i j"
  let ?m1 = "upd2 (upd2 m2 i j ?v) j i ?v"
  note sq = Cons.prems(1) and i = assms(3)
  from Cons.prems(2) have j: "j < n" "j \<noteq> i"
    and js: "\<forall>k \<in> set js. k < n \<and> k \<noteq> i" by simp_all
  from Cons.prems(3) have jn: "j \<notin> set js" and djs: "distinct js" by simp_all
  have sq1: "square n ?m1"
    using sq by (simp add: square_upd2)
  have step: "complete_cell src i j (m2, mx) = Inr (?m1, pymax mx ?v)"
    using assms(1) sq i j(1) by (rule complete_cell_square)
  from Cons.IH [OF sq1 js djs, of "pymax mx ?v"]
  obtain m' mx' where run: "efold (\<lambda>j. complete_cell src i j) js (?m1, pymax mx ?v) = Inr (m', mx')"
    and post: "crow_post n i (set js) src ?m1 m'"
    by blast
  have "crow_post n i (set (j # js)) src m2 m'"
  proof (rule crow_postI)
    show "square n m'" using post by (rule crow_post_square)
  next
    fix b assume b: "b \<in> set (j # js)"
    show "m' ! i ! b = tval src i b \<and> m' ! b ! i = tval src i b"
    proof (cases "b \<in> set js")
      case True
      from crow_post_new [OF post True] show ?thesis .
    next
      case False
      with b have bj: "b = j" by simp
      have "m' ! i ! j = ?m1 ! i ! j"
        using post i j(1) by (rule crow_post_old) (use jn j(2) in blast)+
      moreover have "m' ! j ! i = ?m1 ! j ! i"
        using post j(1) i by (rule crow_post_old) (use jn j(2) in blast)+
      ultimately show ?thesis
        unfolding bj using upd2_pair_ij [OF sq i j(1), of ?v] upd2_pair_ji [OF sq i j(1), of ?v]
        by presburger
    qed
  next
    fix a b
    assume ab: "a < n" "b < n" and na: "a = i \<longrightarrow> b \<notin> set (j # js)"
      and nb: "b = i \<longrightarrow> a \<notin> set (j # js)"
    have sub: "\<And>x. x \<notin> set (j # js) \<Longrightarrow> x \<notin> set js" by simp
    have "m' ! a ! b = ?m1 ! a ! b"
    proof (rule crow_post_old [OF post ab])
      show "a = i \<longrightarrow> b \<notin> set js" using na sub by blast
      show "b = i \<longrightarrow> a \<notin> set js" using nb sub by blast
    qed
    also have "?m1 ! a ! b = m2 ! a ! b"
      using sq ab
    proof (rule upd2_pair_other)
      have jmem: "j \<in> set (j # js)" by simp
      show "\<not> (a = i \<and> b = j)" using na jmem by blast
      show "\<not> (a = j \<and> b = i)" using nb jmem by blast
    qed
    finally show "m' ! a ! b = m2 ! a ! b" .
  qed
  moreover have "efold (\<lambda>j. complete_cell src i j) (j # js) (m2, mx) = Inr (m', mx')"
    using step run by simp
  ultimately show ?case by blast
qed

lemma complete_inner_upto:
  assumes "square n src" "square n m2" "i < n"
  shows "\<exists>m' mx'. efold (\<lambda>j. complete_cell src i j) [0..<i] (m2, mx) = Inr (m', mx') \<and>
           crow_post n i {..<i} src m2 m'"
proof -
  have A: "\<forall>j \<in> set [0..<i]. j < n \<and> j \<noteq> i"
    using assms(3) by simp
  have B: "distinct [0..<i]" by simp
  have C: "set [0..<i] = {..<i}" by auto
  from complete_inner_loop [OF assms A B, of mx] show ?thesis
    by (simp only: C)
qed

lemma complete_outer_loop:
  assumes "square n src" "square n m2" "\<forall>i \<in> set is. i < n" "distinct is"
  shows "\<exists>m' mx'. efold (\<lambda>i. efold (\<lambda>j. complete_cell src i j) [0..<i]) is (m2, mx) = Inr (m', mx')
           \<and> ctri_post n (set is) src m2 m'"
  using assms(2,3,4)
proof (induction "is" arbitrary: m2 mx)
  case Nil
  then show ?case by (simp add: ctri_post_refl)
next
  case (Cons i "is")
  note sq = Cons.prems(1)
  from Cons.prems(2) have i: "i < n" and rest: "\<forall>k \<in> set is. k < n" by simp_all
  from Cons.prems(3) have inot: "i \<notin> set is" and dis: "distinct is" by simp_all
  from complete_inner_upto [OF assms(1) sq i, of mx]
  obtain m1 mx1 where run1: "efold (\<lambda>j. complete_cell src i j) [0..<i] (m2, mx) = Inr (m1, mx1)"
    and post1: "crow_post n i {..<i} src m2 m1"
    by blast
  have sq1: "square n m1" using post1 by (rule crow_post_square)
  from Cons.IH [OF sq1 rest dis, of mx1]
  obtain m' mx' where run: "efold (\<lambda>i. efold (\<lambda>j. complete_cell src i j) [0..<i]) is (m1, mx1) = Inr (m', mx')"
    and post: "ctri_post n (set is) src m1 m'"
    by blast
  have old1: "m1 ! a ! b = m2 ! a ! b"
    if "a < n" "b < n" "a = i \<longrightarrow> \<not> b < i" "b = i \<longrightarrow> \<not> a < i" for a b
    using post1 that(1,2) by (rule crow_post_old) (use that(3,4) in simp)+
  have newi: "m' ! i ! b = tval src i b \<and> m' ! b ! i = tval src i b" if bi: "b < i" for b
  proof -
    from bi i have bn: "b < n" by linarith
    have "m' ! i ! b = m1 ! i ! b"
    proof (rule ctri_post_old [OF post i bn])
      show "b < i \<longrightarrow> i \<notin> set is" using inot by blast
      show "i < b \<longrightarrow> b \<notin> set is" using bi by linarith
    qed
    moreover have "m' ! b ! i = m1 ! b ! i"
    proof (rule ctri_post_old [OF post bn i])
      show "i < b \<longrightarrow> b \<notin> set is" using bi by linarith
      show "b < i \<longrightarrow> i \<notin> set is" using inot by blast
    qed
    moreover have "b \<in> {..<i}" using bi by simp
    note crow_post_new [OF post1 this]
    ultimately show ?thesis by presburger
  qed
  have "ctri_post n (set (i # is)) src m2 m'"
  proof (rule ctri_postI)
    show "square n m'" using post by (rule ctri_post_square)
  next
    fix a b assume a: "a \<in> set (i # is)" and ba: "b < a"
    show "m' ! a ! b = tval src a b \<and> m' ! b ! a = tval src a b"
    proof (cases "a \<in> set is")
      case True
      from ctri_post_new [OF post True ba] show ?thesis .
    next
      case False
      with a have ai: "a = i" by simp
      from ba show ?thesis unfolding ai by (rule newi)
    qed
  next
    fix a b
    assume ab: "a < n" "b < n" and na: "b < a \<longrightarrow> a \<notin> set (i # is)"
      and nb: "a < b \<longrightarrow> b \<notin> set (i # is)"
    have imem: "i \<in> set (i # is)" by simp
    have sub: "\<And>x. x \<notin> set (i # is) \<Longrightarrow> x \<notin> set is" by simp
    have "m' ! a ! b = m1 ! a ! b"
    proof (rule ctri_post_old [OF post ab])
      show "b < a \<longrightarrow> a \<notin> set is" using na sub by blast
      show "a < b \<longrightarrow> b \<notin> set is" using nb sub by blast
    qed
    also have "m1 ! a ! b = m2 ! a ! b"
    proof (rule old1 [OF ab])
      show "a = i \<longrightarrow> \<not> b < i" using na imem by blast
      show "b = i \<longrightarrow> \<not> a < i" using nb imem by blast
    qed
    finally show "m' ! a ! b = m2 ! a ! b" .
  qed
  moreover have "efold (\<lambda>i. efold (\<lambda>j. complete_cell src i j) [0..<i]) (i # is) (m2, mx) = Inr (m', mx')"
    using run1 run by simp
  ultimately show ?case by blast
qed

lemma zeros_square:
  assumes "square n m"
  shows "square n (map (\<lambda>r. replicate (length r) (Fin 0)) m)"
  using assms by (simp add: square_def list_all_iff)

lemma zeros_nth:
  assumes "square n m" "a < n" "b < n"
  shows "map (\<lambda>r. replicate (length r) (Fin 0)) m ! a ! b = Fin 0"
  using assms by (simp add: square_def list_all_length)

lemma complete_og_square:
  assumes "square n m"
  shows "\<exists>m2. complete_og m = Inr m2 \<and> square n m2 \<and>
           (\<forall>a<n. \<forall>b<a. m2 ! a ! b = tval m a b \<and> m2 ! b ! a = tval m a b) \<and>
           (\<forall>a<n. m2 ! a ! a = Fin 0)"
proof -
  let ?z = "map (\<lambda>r. replicate (length r) (Fin 0)) m"
  have len: "length m = n" using assms by (simp add: square_def)
  have A: "\<forall>i \<in> set [0..<n]. i < n" by simp
  have B: "distinct [0..<n]" by simp
  have C: "set [0..<n] = {..<n}" by auto
  from complete_outer_loop [OF assms zeros_square [OF assms] A B, of "Fin (- big)"]
  obtain m' mx' where run: "efold (\<lambda>i. efold (\<lambda>j. complete_cell m i j) [0..<i]) [0..<n] (?z, Fin (- big)) = Inr (m', mx')"
    and post: "ctri_post n {..<n} m ?z m'"
    unfolding C by blast
  have sq': "square n m'" using post by (rule ctri_post_square)
  have low: "m' ! a ! b = tval m a b \<and> m' ! b ! a = tval m a b" if "a < n" "b < a" for a b
    using post _ that(2) by (rule ctri_post_new) (use that(1) in simp)
  have diag: "m' ! a ! a = Fin 0" if "a < n" for a
  proof -
    have "m' ! a ! a = ?z ! a ! a"
      using post that that by (rule ctri_post_old) simp_all
    then show ?thesis using zeros_nth [OF assms that that] by simp
  qed
  have "complete_og m = Inr m'"
    unfolding complete_og_def Let_def len run by simp
  with sq' low diag show ?thesis by blast
qed

lemma tval_pos:
  "m ! i ! j = Fin x \<Longrightarrow> m ! j ! i = Fin y \<Longrightarrow> 0 < x + y \<Longrightarrow> tval m i j = Fin (- ln (x + y))"
  by (simp add: tval_def)

lemma tval_zero:
  "m ! i ! j = Fin x \<Longrightarrow> m ! j ! i = Fin y \<Longrightarrow> x + y = 0 \<Longrightarrow> tval m i j = PInf"
  by (simp add: tval_def)

lemma tval_inf_left: "m ! i ! j = PInf \<Longrightarrow> nonneg (m ! j ! i) \<Longrightarrow> tval m i j = NInf"
  by (cases "m ! j ! i") (simp_all add: tval_def)

lemma tval_inf_right: "nonneg (m ! i ! j) \<Longrightarrow> m ! j ! i = PInf \<Longrightarrow> tval m i j = NInf"
  by (cases "m ! i ! j") (simp_all add: tval_def)

lemma finalized_cells:
  assumes sq: "square n m"
    and low: "\<And>a b. a < n \<Longrightarrow> b < a \<Longrightarrow> r ! a ! b = tval m a b \<and> r ! b ! a = tval m a b"
    and diag: "\<And>a. a < n \<Longrightarrow> all_cells nonneg m \<Longrightarrow> r ! a ! a \<noteq> NaN"
  shows "(\<forall>i<n. \<forall>j<n. r ! i ! j = r ! j ! i) \<and>
         (\<forall>i<n. \<forall>j<i.
            r ! i ! j = fneg (np_log (fadd (m ! i ! j) (m ! j ! i))) \<and> r ! j ! i = r ! i ! j \<and>
            (\<forall>x y. m ! i ! j = Fin x \<and> m ! j ! i = Fin y \<and> 0 < x + y \<longrightarrow>
                   r ! i ! j = Fin (- ln (x + y))) \<and>
            (\<forall>x y. m ! i ! j = Fin x \<and> m ! j ! i = Fin y \<and> x + y = 0 \<longrightarrow> r ! i ! j = PInf) \<and>
            ((m ! i ! j = PInf \<and> nonneg (m ! j ! i)) \<or> (nonneg (m ! i ! j) \<and> m ! j ! i = PInf) \<longrightarrow>
                   r ! i ! j = NInf)) \<and>
         (all_cells nonneg m \<longrightarrow> (\<forall>i<n. \<forall>j<n. feq (r ! i ! j) (r ! j ! i)))"
proof -
  have sym: "r ! i ! j = r ! j ! i" if ij: "i < n" "j < n" for i j
  proof (rule linorder_cases [of i j])
    assume "i < j"
    from low [OF ij(2) this] show ?thesis by presburger
  next
    assume e: "i = j"
    show ?thesis unfolding e ..
  next
    assume "j < i"
    from low [OF ij(1) this] show ?thesis by presburger
  qed
  have vals: "r ! i ! j = fneg (np_log (fadd (m ! i ! j) (m ! j ! i))) \<and> r ! j ! i = r ! i ! j \<and>
            (\<forall>x y. m ! i ! j = Fin x \<and> m ! j ! i = Fin y \<and> 0 < x + y \<longrightarrow>
                   r ! i ! j = Fin (- ln (x + y))) \<and>
            (\<forall>x y. m ! i ! j = Fin x \<and> m ! j ! i = Fin y \<and> x + y = 0 \<longrightarrow> r ! i ! j = PInf) \<and>
            ((m ! i ! j = PInf \<and> nonneg (m ! j ! i)) \<or> (nonneg (m ! i ! j) \<and> m ! j ! i = PInf) \<longrightarrow>
                   r ! i ! j = NInf)"
    if ij: "i < n" "j < i" for i j
  proof -
    from low [OF ij] have a: "r ! i ! j = tval m i j" and b: "r ! j ! i = tval m i j" by blast+
    have c1: "r ! i ! j = fneg (np_log (fadd (m ! i ! j) (m ! j ! i)))"
      unfolding a tval_def ..
    have c2: "r ! j ! i = r ! i ! j" unfolding a b ..
    have c3: "\<forall>x y. m ! i ! j = Fin x \<and> m ! j ! i = Fin y \<and> 0 < x + y \<longrightarrow>
                   r ! i ! j = Fin (- ln (x + y))"
      unfolding a using tval_pos by blast
    have c4: "\<forall>x y. m ! i ! j = Fin x \<and> m ! j ! i = Fin y \<and> x + y = 0 \<longrightarrow> r ! i ! j = PInf"
      unfolding a using tval_zero by blast
    have c5: "(m ! i ! j = PInf \<and> nonneg (m ! j ! i)) \<or> (nonneg (m ! i ! j) \<and> m ! j ! i = PInf) \<longrightarrow>
                   r ! i ! j = NInf"
      unfolding a using tval_inf_left tval_inf_right by blast
    from c1 c2 c3 c4 c5 show ?thesis by blast
  qed
  have eq: "feq (r ! i ! j) (r ! j ! i)" if nn: "all_cells nonneg m" and ij: "i < n" "j < n" for i j
  proof -
    have cell: "nonneg (m ! a ! b)" if "a < n" "b < n" for a b
      using nn sq that by (rule all_cells_nth)
    have "r ! i ! j \<noteq> NaN"
    proof (rule linorder_cases [of i j])
      assume lt: "i < j"
      have "tval m j i \<noteq> NaN"
        using cell [OF ij(2) ij(1)] cell [OF ij(1) ij(2)] by (rule tval_not_NaN)
      with low [OF ij(2) lt] show ?thesis by presburger
    next
      assume e: "i = j"
      from diag [OF ij(1) nn] show ?thesis unfolding e [symmetric] .
    next
      assume gt: "j < i"
      have "tval m i j \<noteq> NaN"
        using cell [OF ij(1) ij(2)] cell [OF ij(2) ij(1)] by (rule tval_not_NaN)
      with low [OF ij(1) gt] show ?thesis by presburger
    qed
    with sym [OF ij] show ?thesis unfolding feq_def by blast
  qed
  from sym vals eq show ?thesis by blast
qed

lemma CompleteOGMatrices_single:
  "CompleteOGMatrices [og] [NdArray m] = ebind (complete_og m) (\<lambda>m2. Inr [m2])"
  by (simp add: CompleteOGMatrices_def)

lemma CompleteOGMatrices_ArrayRows:
  "CompleteOGMatrices (og # ogs) (ArrayRows rows # ms) = Inl AttributeError"
  by (simp add: CompleteOGMatrices_def)

text \<open>C2, as stated for every square matrix, fails where the sum of the two raw values is
  negative: both cells then hold NaN, and the comparison \<open>M[i][j] == M[j][i]\<close> of the program
  is false for NaN.\<close>

theorem transform_nan_not_equal:
  "transform_og [[Fin 0, Fin (- 1)], [Fin (- 2), Fin 0]] =
     Inr ([[Fin 0, NaN], [NaN, Fin 0]], Fin (- big))
   \<and> \<not> feq ([[Fin 0, NaN], [NaN, Fin 0]] ! 1 ! 0) ([[Fin 0, NaN], [NaN, Fin 0]] ! 0 ! 1)"
proof -
  have u2: "[0..<2] = [0, 1]" by (simp add: upt_rec)
  have u1: "[0..<1] = [0]" by (simp add: upt_rec)
  have c: "transform_cell 1 0 ([[Fin 0, Fin (- 1)], [Fin (- 2), Fin 0]], Fin (- big)) =
             Inr ([[Fin 0, NaN], [NaN, Fin 0]], Fin (- big))"
    by (simp add: transform_cell_def get2_def nth_err_def set2_def pymax_def)
  have "transform_og [[Fin 0, Fin (- 1)], [Fin (- 2), Fin 0]] =
     Inr ([[Fin 0, NaN], [NaN, Fin 0]], Fin (- big))"
    unfolding transform_og_def by (simp add: u2 u1 c [unfolded One_nat_def])
  then show ?thesis by (simp add: feq_def)
qed

text \<open>C2 (amended): for a square matrix \<open>m\<close> of size \<open>n\<close>, the transform of
  \<open>CompleteAndWriteOGMatrices\<close> (in place, result \<open>m'\<close>) and \<open>CompleteOGMatrices\<close> on a numpy
  array (fresh matrix \<open>m2\<close>) both succeed, and in both results the cells \<open>(i, j)\<close> and
  \<open>(j, i)\<close> hold the same stored value for all \<open>i, j\<close>; for every \<open>i\<close> and every \<open>j < i\<close> both
  cells hold \<open>-ln(r\<^sub>i\<^sub>j + r\<^sub>j\<^sub>i)\<close> of the two raw values of \<open>m\<close>: the real number \<open>- ln (x + y)\<close>
  for finite raw values with a positive sum, plus infinity for a sum of zero, minus infinity
  when a raw value is plus infinity. The in-place transform leaves the diagonal as it was,
  \<open>CompleteOGMatrices\<close> leaves it zero. When all raw values are non-negative or plus infinity no
  cell is NaN and \<open>M[i][j] == M[j][i]\<close> is true for all \<open>i, j\<close>.\<close>

theorem transform_values_symmetric:
  assumes "square n m"
  shows "\<exists>m' max_og m2.
           transform_og m = Inr (m', max_og) \<and> CompleteOGMatrices [og] [NdArray m] = Inr [m2] \<and>
           square n m' \<and> square n m2 \<and>
           (\<forall>i<n. m' ! i ! i = m ! i ! i \<and> m2 ! i ! i = Fin 0) \<and>
           (\<forall>r \<in> {m', m2}.
              (\<forall>i<n. \<forall>j<n. r ! i ! j = r ! j ! i) \<and>
              (\<forall>i<n. \<forall>j<i.
                 r ! i ! j = fneg (np_log (fadd (m ! i ! j) (m ! j ! i))) \<and> r ! j ! i = r ! i ! j \<and>
                 (\<forall>x y. m ! i ! j = Fin x \<and> m ! j ! i = Fin y \<and> 0 < x + y \<longrightarrow>
                        r ! i ! j = Fin (- ln (x + y))) \<and>
                 (\<forall>x y. m ! i ! j = Fin x \<and> m ! j ! i = Fin y \<and> x + y = 0 \<longrightarrow> r ! i ! j = PInf) \<and>
                 ((m ! i ! j = PInf \<and> nonneg (m ! j ! i)) \<or> (nonneg (m ! i ! j) \<and> m ! j ! i = PInf) \<longrightarrow>
                        r ! i ! j = NInf)) \<and>
              (all_cells nonneg m \<longrightarrow> (\<forall>i<n. \<forall>j<n. feq (r ! i ! j) (r ! j ! i))))"
proof -
  from transform_og_square [OF assms]
  obtain m' mx' where run: "transform_og m = Inr (m', mx')"
    and post: "tri_post n {..<n} m m'"
    by blast
  have sq': "square n m'" using post by (rule tri_post_square)
  have low: "m' ! i ! j = tval m i j \<and> m' ! j ! i = tval m i j" if "i < n" "j < i" for i j
    using post _ that(2) by (rule tri_post_new) (use that(1) in simp)
  have diag: "m' ! i ! i = m ! i ! i" if "i < n" for i
    using post that that by (rule tri_post_old) simp_all
  have dn: "m' ! a ! a \<noteq> NaN" if "a < n" "all_cells nonneg m" for a
    unfolding diag [OF that(1)]
    using all_cells_nth [OF that(2) assms that(1) that(1)] by (rule nonneg_not_NaN)
  note P1 = finalized_cells [of n m m', OF assms low dn]
  from complete_og_square [OF assms]
  obtain m2 where run2: "complete_og m = Inr m2" and sq2: "square n m2"
    and low2: "\<forall>a<n. \<forall>b<a. m2 ! a ! b = tval m a b \<and> m2 ! b ! a = tval m a b"
    and diag2: "\<forall>a<n. m2 ! a ! a = Fin 0"
    by blast
  have l2: "m2 ! a ! b = tval m a b \<and> m2 ! b ! a = tval m a b" if "a < n" "b < a" for a b
    using low2 that by blast
  have dn2: "m2 ! a ! a \<noteq> NaN" if "a < n" "all_cells nonneg m" for a
    using diag2 that(1) by simp
  note P2 = finalized_cells [of n m m2, OF assms l2 dn2]
  have c: "CompleteOGMatrices [og] [NdArray m] = Inr [m2]"
    unfolding CompleteOGMatrices_single run2 by simp
  have d: "\<forall>i<n. m' ! i ! i = m ! i ! i \<and> m2 ! i ! i = Fin 0"
    using diag diag2 by blast
  show ?thesis
  proof (intro exI conjI ballI)
    show "transform_og m = Inr (m', mx')" by (rule run)
    show "CompleteOGMatrices [og] [NdArray m] = Inr [m2]" by (rule c)
    show "square n m'" by (rule sq')
    show "square n m2" by (rule sq2)
    show "\<forall>i<n. m' ! i ! i = m ! i ! i \<and> m2 ! i ! i = Fin 0" by (rule d)
  next
    fix r assume "r \<in> {m', m2}"
    then have r: "r = m' \<or> r = m2" by simp
    from r show "\<forall>i<n. \<forall>j<n. r ! i ! j = r ! j ! i"
      using P1 [THEN conjunct1] P2 [THEN conjunct1] by (elim disjE) simp_all
    from r show "\<forall>i<n. \<forall>j<i.
                 r ! i ! j = fneg (np_log (fadd (m ! i ! j) (m ! j ! i))) \<and> r ! j ! i = r ! i ! j \<and>
                 (\<forall>x y. m ! i ! j = Fin x \<and> m ! j ! i = Fin y \<and> 0 < x + y \<longrightarrow>
                        r ! i ! j = Fin (- ln (x + y))) \<and>
                 (\<forall>x y. m ! i ! j = Fin x \<and> m ! j ! i = Fin y \<and> x + y = 0 \<longrightarrow> r ! i ! j = PInf) \<and>
                 ((m ! i ! j = PInf \<and> nonneg (m ! j ! i)) \<or> (nonneg (m ! i ! j) \<and> m ! j ! i = PInf) \<longrightarrow>
                        r ! i ! j = NInf)"
    proof (elim disjE)
      assume e: "r = m'"
      show ?thesis unfolding e by (rule P1 [THEN conjunct2, THEN conjunct1])
    next
      assume e: "r = m2"
      show ?thesis unfolding e by (rule P2 [THEN conjunct2, THEN conjunct1])
    qed
    from r show "all_cells nonneg m \<longrightarrow> (\<forall>i<n. \<forall>j<n. feq (r ! i ! j) (r ! j ! i))"
    proof (elim disjE)
      assume e: "r = m'"
      show ?thesis unfolding e by (rule P1 [THEN conjunct2, THEN conjunct2])
    next
      assume e: "r = m2"
      show ?thesis unfolding e by (rule P2 [THEN conjunct2, THEN conjunct2])
    qed
  qed
qed

theorem transform_values_symmetric_witness:
  "\<exists>m' max_og m2.
     transform_og [[Fin (1 / 4), Fin (1 / 2)], [Fin (1 / 4), Fin (1 / 8)]] = Inr (m', max_og) \<and>
     CompleteOGMatrices [[]] [NdArray [[Fin (1 / 4), Fin (1 / 2)], [Fin (1 / 4), Fin (1 / 8)]]] = Inr [m2] \<and>
     m' ! 1 ! 0 = Fin (- ln (3 / 4)) \<and> m' ! 0 ! 1 = Fin (- ln (3 / 4)) \<and>
     m2 ! 1 ! 0 = Fin (- ln (3 / 4)) \<and> m2 ! 0 ! 1 = Fin (- ln (3 / 4)) \<and>
     feq (m' ! 1 ! 0) (m' ! 0 ! 1) \<and> m' ! 0 ! 0 = Fin (1 / 4) \<and> m2 ! 0 ! 0 = Fin 0"
proof -
  let ?M = "[[Fin (1 / 4), Fin (1 / 2)], [Fin (1 / 4), Fin (1 / 8)]]"
  have sq: "square 2 ?M" by (simp add: square_def)
  have nn: "all_cells nonneg ?M" by (simp add: all_cells_def)
  from transform_values_symmetric [OF sq, of "[]"]
  obtain m' max_og m2 where H:
    "transform_og ?M = Inr (m', max_og) \<and> CompleteOGMatrices [[]] [NdArray ?M] = Inr [m2] \<and>
           square 2 m' \<and> square 2 m2 \<and>
           (\<forall>i<2. m' ! i ! i = ?M ! i ! i \<and> m2 ! i ! i = Fin 0) \<and>
           (\<forall>r \<in> {m', m2}.
              (\<forall>i<2. \<forall>j<2. r ! i ! j = r ! j ! i) \<and>
              (\<forall>i<2. \<forall>j<i.
                 r ! i ! j = fneg (np_log (fadd (?M ! i ! j) (?M ! j ! i))) \<and> r ! j ! i = r ! i ! j \<and>
                 (\<forall>x y. ?M ! i ! j = Fin x \<and> ?M ! j ! i = Fin y \<and> 0 < x + y \<longrightarrow>
                        r ! i ! j = Fin (- ln (x + y))) \<and>
                 (\<forall>x y. ?M ! i ! j = Fin x \<and> ?M ! j ! i = Fin y \<and> x + y = 0 \<longrightarrow> r ! i ! j = PInf) \<and>
                 ((?M ! i ! j = PInf \<and> nonneg (?M ! j ! i)) \<or> (nonneg (?M ! i ! j) \<and> ?M ! j ! i = PInf) \<longrightarrow>
                        r ! i ! j = NInf)) \<and>
              (all_cells nonneg ?M \<longrightarrow> (\<forall>i<2. \<forall>j<2. feq (r ! i ! j) (r ! j ! i))))"
    by (elim exE) (rule that)
  note run = H [THEN conjunct1]
  note c = H [THEN conjunct2, THEN conjunct1]
  note d = H [THEN conjunct2, THEN conjunct2, THEN conjunct2, THEN conjunct2, THEN conjunct1]
  note F = H [THEN conjunct2, THEN conjunct2, THEN conjunct2, THEN conjunct2, THEN conjunct2]
  note F1 = bspec [OF F, of m', OF insertI1]
  note F2 = bspec [OF F, of m2, OF insertI2 [OF insertI1]]
  have ij: "(1::nat) < 2" "(0::nat) < 1" "(0::nat) < 2" by simp_all
  have raw: "?M ! 1 ! 0 = Fin (1 / 4) \<and> ?M ! 0 ! 1 = Fin (1 / 2) \<and> (0::real) < 1 / 4 + 1 / 2"
    by simp
  have s: "(1 / 4 + 1 / 2 :: real) = 3 / 4" by simp
  note V1 = F1 [THEN conjunct2, THEN conjunct1, rule_format, OF ij(1) ij(2)]
  note V2 = F2 [THEN conjunct2, THEN conjunct1, rule_format, OF ij(1) ij(2)]
  have a1: "m' ! 1 ! 0 = Fin (- ln (3 / 4))"
    using V1 [THEN conjunct2, THEN conjunct2, THEN conjunct1, rule_format, OF raw] unfolding s .
  have a2: "m' ! 0 ! 1 = Fin (- ln (3 / 4))"
    using V1 [THEN conjunct2, THEN conjunct1] a1 by simp
  have b1: "m2 ! 1 ! 0 = Fin (- ln (3 / 4))"
    using V2 [THEN conjunct2, THEN conjunct2, THEN conjunct1, rule_format, OF raw] unfolding s .
  have b2: "m2 ! 0 ! 1 = Fin (- ln (3 / 4))"
    using V2 [THEN conjunct2, THEN conjunct1] b1 by simp
  have e: "feq (m' ! 1 ! 0) (m' ! 0 ! 1)"
    using F1 [THEN conjunct2, THEN conjunct2, rule_format, OF nn ij(1) ij(3)] .
  have d0: "m' ! 0 ! 0 = Fin (1 / 4)" "m2 ! 0 ! 0 = Fin 0"
    using d [rule_format, OF ij(3)] by simp_all
  show ?thesis
  proof (intro exI conjI)
    show "transform_og ?M = Inr (m', max_og)" by (rule run)
    show "CompleteOGMatrices [[]] [NdArray ?M] = Inr [m2]" by (rule c)
  qed (rule a1 a2 b1 b2 e d0)+
qed

section \<open>The Phylip writer and the species matrix writer: claims C5 and C9\<close>

lemma emap_Inr:
  "(\<And>x. x \<in> set xs \<Longrightarrow> f x = Inr (g x)) \<Longrightarrow> emap f xs = Inr (map g xs)"
  by (induction xs) simp_all

lemma digit_char_is_digit: "d < 10 \<Longrightarrow> is_digit (digit_char d)"
proof -
  assume "d < 10"
  then have "d \<in> {0, 1, 2, 3, 4, 5, 6, 7, 8, 9}" by auto
  then show ?thesis
    by (auto simp: is_digit_def digit_char_def)
qed

lemma str_nat_digits: "list_all is_digit (str_nat n)"
proof (induction n rule: str_nat.induct)
  case (1 n)
  show ?case
  proof (cases "n < 10")
    case True
    then show ?thesis by (simp add: str_nat.simps [of n] digit_char_is_digit)
  next
    case False
    with 1 have "list_all is_digit (str_nat (n div 10))" by simp
    moreover have "is_digit (digit_char (n mod 10))" by (simp add: digit_char_is_digit)
    ultimately show ?thesis using False by (simp add: str_nat.simps [of n])
  qed
qed

lemma str_nat_nonempty: "str_nat n \<noteq> []"
  by (simp add: str_nat.simps [of n])

lemma str_nat_length: "n < 10 ^ d \<Longrightarrow> 0 < d \<Longrightarrow> length (str_nat n) \<le> d"
proof (induction n arbitrary: d rule: str_nat.induct)
  case (1 n)
  show ?case
  proof (cases "n < 10")
    case True
    with 1(3) show ?thesis by (simp add: str_nat.simps [of n])
  next
    case False
    from 1(3) obtain e where d: "d = Suc e" by (cases d) auto
    from False 1(2) d have e: "0 < e" by (cases e) auto
    from 1(2) d have "n div 10 < 10 ^ e" by (simp add: less_mult_imp_div_less mult.commute)
    from 1(1) [OF False this e] False d show ?thesis by (simp add: str_nat.simps [of n])
  qed
qed

lemma not_digit: "\<not> is_digit (CHR ''.'')" "\<not> is_digit (CHR ''-'')"
  by (simp_all add: is_digit_def)

lemma is_fixed6_unsigned:
  assumes ip: "ip \<noteq> []" "list_all is_digit ip" and fp: "length fp = 6" "list_all is_digit fp"
  shows "is_fixed6 (ip @ ''.'' @ fp)"
proof -
  have all: "\<And>x. x \<in> set ip \<Longrightarrow> is_digit x"
    using ip(2) by (simp add: list_all_iff)
  from ip obtain c r where c: "ip = c # r" "is_digit c" by (cases ip) auto
  then have "c \<noteq> CHR ''-''" using not_digit(2) by auto
  then have t: "(case ip @ ''.'' @ fp of [] \<Rightarrow> [] | c # r \<Rightarrow> if c = CHR ''-'' then r else ip @ ''.'' @ fp) = ip @ ''.'' @ fp"
    using c(1) by simp
  have tw: "takeWhile is_digit (ip @ ''.'' @ fp) = ip"
    using all not_digit(1) by (simp add: takeWhile_append2)
  have dw: "dropWhile is_digit (ip @ ''.'' @ fp) = ''.'' @ fp"
    using all not_digit(1) by (simp add: dropWhile_append2)
  show ?thesis
    unfolding is_fixed6_def t Let_def tw dw using ip fp by simp
qed

lemma is_fixed6_signed:
  assumes ip: "ip \<noteq> []" "list_all is_digit ip" and fp: "length fp = 6" "list_all is_digit fp"
  shows "is_fixed6 (''-'' @ ip @ ''.'' @ fp)"
proof -
  have all: "\<And>x. x \<in> set ip \<Longrightarrow> is_digit x"
    using ip(2) by (simp add: list_all_iff)
  have t: "(case ''-'' @ ip @ ''.'' @ fp of [] \<Rightarrow> [] | c # r \<Rightarrow> if c = CHR ''-'' then r else ''-'' @ ip @ ''.'' @ fp) = ip @ ''.'' @ fp"
    by simp
  have tw: "takeWhile is_digit (ip @ ''.'' @ fp) = ip"
    using all not_digit(1) by (simp add: takeWhile_append2)
  have dw: "dropWhile is_digit (ip @ ''.'' @ fp) = ''.'' @ fp"
    using all not_digit(1) by (simp add: dropWhile_append2)
  show ?thesis
    unfolding is_fixed6_def t Let_def tw dw using ip fp by simp
qed

lemma fmt_fixed6_is_fixed6: "is_fixed6 (fmt_fixed6 x)"
proof -
  define q where "q = nat (round_half_even (\<bar>x\<bar> * 1000000))"
  define fp where "fp = str_nat (q mod 1000000)"
  define pad where "pad = replicate (6 - length fp) (CHR ''0'') @ fp"
  have "q mod 1000000 < 10 ^ 6" by simp
  then have len: "length fp \<le> 6" unfolding fp_def by (rule str_nat_length) simp
  then have l6: "length pad = 6" by (simp add: pad_def)
  have "is_digit (CHR ''0'')" by (simp add: is_digit_def)
  then have dg: "list_all is_digit pad"
    using str_nat_digits [of "q mod 1000000"] by (auto simp: pad_def fp_def list_all_iff)
  have eq: "fmt_fixed6 x = (if x < 0 then ''-'' else []) @ str_nat (q div 1000000) @ ''.'' @ pad"
    by (simp add: fmt_fixed6_def Let_def q_def fp_def pad_def)
  show ?thesis
  proof (cases "x < 0")
    case True
    with eq have "fmt_fixed6 x = ''-'' @ str_nat (q div 1000000) @ ''.'' @ pad" by simp
    then show ?thesis
      using is_fixed6_signed [OF str_nat_nonempty str_nat_digits l6 dg] by simp
  next
    case False
    with eq have "fmt_fixed6 x = str_nat (q div 1000000) @ ''.'' @ pad" by simp
    then show ?thesis
      using is_fixed6_unsigned [OF str_nat_nonempty str_nat_digits l6 dg] by simp
  qed
qed

lemma not_fixed6_inf: "\<not> is_fixed6 (fmt6 PInf)" "\<not> is_fixed6 (fmt6 NInf)" "\<not> is_fixed6 (fmt6 NaN)"
  by (simp_all add: is_fixed6_def is_digit_def)

lemma fadd_zero [simp]: "fadd (Fin 0) v = v"
  by (cases v) simp_all

lemma get2_row:
  assumes "square n m" "i < n"
  shows "emap (\<lambda>j. ebind (get2 m i j) (\<lambda>v. Inr (f v))) [0..<n] = Inr (map (\<lambda>j. f (m ! i ! j)) [0..<n])"
proof (rule emap_Inr)
  fix j assume "j \<in> set [0..<n]"
  then have "j < n" by simp
  with assms show "ebind (get2 m i j) (\<lambda>v. Inr (f v)) = Inr (f (m ! i ! j))"
    by (simp add: get2_square)
qed

lemma phylip_row_square:
  assumes "square n m" "i < n" "i < length names"
  shows "phylip_row m names (fmul (Fin (11 / 10)) max_og) n i =
           Inr (names ! i @ '' '' @ join_sp (map (\<lambda>j. fmt6 (phylip_cell max_og (m ! i ! j))) [0..<n])
                @ [CHR 0x0A])"
  using assms(3)
  by (simp add: phylip_row_def nth_err_def get2_row [OF assms(1,2)] phylip_cell_def comp_def)

lemma WritePhylipMatrix_square:
  assumes "square n m" "n \<le> length names"
  shows "WritePhylipMatrix m names max_og =
           Inr (str_nat n @ [CHR 0x0A] @
                concat (map (\<lambda>i. names ! i @ '' '' @
                                join_sp (map (\<lambda>j. fmt6 (phylip_cell max_og (m ! i ! j))) [0..<n])
                                @ [CHR 0x0A]) [0..<n]))"
proof -
  have len: "length m = n" using assms(1) by (simp add: square_def)
  have "emap (phylip_row m names (fmul (Fin (11 / 10)) max_og) n) [0..<n] =
          Inr (map (\<lambda>i. names ! i @ '' '' @
                     join_sp (map (\<lambda>j. fmt6 (phylip_cell max_og (m ! i ! j))) [0..<n])
                     @ [CHR 0x0A]) [0..<n])"
  proof (rule emap_Inr)
    fix i assume "i \<in> set [0..<n]"
    then have i: "i < n" by simp
    with assms(2) have "i < length names" by simp
    with assms(1) i show "phylip_row m names (fmul (Fin (11 / 10)) max_og) n i =
        Inr (names ! i @ '' '' @ join_sp (map (\<lambda>j. fmt6 (phylip_cell max_og (m ! i ! j))) [0..<n])
             @ [CHR 0x0A])"
      by (rule phylip_row_square)
  qed
  then show ?thesis
    by (simp add: WritePhylipMatrix_def Let_def len)
qed

lemma species_row_square:
  assumes "square n M" "i < n" "i < length speciesToUse"
  shows "species_row speciesToUse M n i =
           Inr (str_nat (speciesToUse ! i) @ '' '' @
                join_sp (map (\<lambda>j. fmt6 (species_cell (M ! i ! j))) [0..<n]) @ [CHR 0x0A])"
  using assms(3)
  by (simp add: species_row_def nth_err_def get2_row [OF assms(1,2)] species_cell_def comp_def
           del: fadd_zero)

lemma write_species_matrix_square:
  assumes "square (length speciesToUse) M"
  shows "write_species_matrix speciesToUse M =
           Inr (str_nat (length speciesToUse) @ [CHR 0x0A] @
                concat (map (\<lambda>i. str_nat (speciesToUse ! i) @ '' '' @
                                join_sp (map (\<lambda>j. fmt6 (species_cell (M ! i ! j)))
                                           [0..<length speciesToUse])
                                @ [CHR 0x0A]) [0..<length speciesToUse]))"
proof -
  let ?n = "length speciesToUse"
  have "emap (species_row speciesToUse M ?n) [0..<?n] =
          Inr (map (\<lambda>i. str_nat (speciesToUse ! i) @ '' '' @
                     join_sp (map (\<lambda>j. fmt6 (species_cell (M ! i ! j))) [0..<?n])
                     @ [CHR 0x0A]) [0..<?n])"
  proof (rule emap_Inr)
    fix i assume "i \<in> set [0..<?n]"
    then have i: "i < ?n" by simp
    from assms i i show "species_row speciesToUse M ?n i =
        Inr (str_nat (speciesToUse ! i) @ '' '' @
             join_sp (map (\<lambda>j. fmt6 (species_cell (M ! i ! j))) [0..<?n]) @ [CHR 0x0A])"
      by (rule species_row_square)
  qed
  then show ?thesis
    by (simp add: write_species_matrix_def Let_def)
qed

lemma phylip_cell_kept: "fgt v (Fin (- big)) \<Longrightarrow> phylip_cell max_og v = species_cell v"
  by (simp add: phylip_cell_def species_cell_def phylip_subst_def)

lemma phylip_cell_replaced:
  "\<not> fgt v (Fin (- big)) \<Longrightarrow> phylip_cell max_og v = sliver_floor (fmul (Fin (11 / 10)) max_og)"
  by (simp add: phylip_cell_def phylip_subst_def)

lemma sliver_floor_range: "\<not> (fgt (sliver_floor v) (Fin 0) \<and> flt (sliver_floor v) (Fin sliver))"
  by (cases v) (auto simp: sliver_floor_def flt_def sliver_def)

lemma sliver_floor_NInf: "sliver_floor v = NInf \<longleftrightarrow> v = NInf"
  by (cases v) (auto simp: sliver_floor_def flt_def)

lemma fmul_NInf: "fmul (Fin (11 / 10)) v = NInf \<longleftrightarrow> v = NInf"
  by (cases v) auto

lemma phylip_cell_not_NInf: "max_og \<noteq> NInf \<Longrightarrow> phylip_cell max_og v \<noteq> NInf"
proof (cases "fgt v (Fin (- big))")
  case True
  then have "v \<noteq> NInf" by (cases v) auto
  with True show ?thesis
    by (simp add: phylip_cell_kept species_cell_def sliver_floor_NInf)
next
  case False
  assume "max_og \<noteq> NInf"
  with False show ?thesis
    by (simp add: phylip_cell_replaced sliver_floor_NInf fmul_NInf)
qed

lemma fmt6_finite_fixed: "w = Fin x \<Longrightarrow> is_fixed6 (fmt6 w)"
  by (simp add: fmt_fixed6_is_fixed6)

lemma ebind_eq_Inr: "(ebind r f = Inr y) = (\<exists>x. r = Inr x \<and> f x = Inr y)"
  by (cases r) simp_all

lemma efold_invariant:
  assumes "\<And>x s s'. x \<in> set xs \<Longrightarrow> P s \<Longrightarrow> f x s = Inr s' \<Longrightarrow> P s'"
    and "P s" and "efold f xs s = Inr s'"
  shows "P s'"
  using assms
proof (induction xs arbitrary: s)
  case Nil
  then show ?case by simp
next
  case (Cons x xs)
  from Cons.prems(3) obtain s1 where s1: "f x s = Inr s1" and rest: "efold f xs s1 = Inr s'"
    by (auto simp: ebind_eq_Inr)
  have "P s1" using Cons.prems(1) [OF _ Cons.prems(2) s1] by simp
  moreover have "P t'" if "y \<in> set xs" "P t" "f y t = Inr t'" for y t t'
    using Cons.prems(1) [of y t t'] that by simp
  ultimately show ?case using rest Cons.IH by blast
qed

lemma pymax_ok: "max_ok a \<Longrightarrow> max_ok (pymax a b)"
  by (cases a; cases b) (auto simp: pymax_def)

lemma transform_cell_max_ok:
  assumes "max_ok (snd s)" "transform_cell i j s = Inr s'"
  shows "max_ok (snd s')"
proof -
  obtain m mx where s: "s = (m, mx)" by (cases s)
  from assms(2) obtain m2 w where "s' = (m2, pymax mx w)"
    unfolding s transform_cell_def by (auto simp: ebind_eq_Inr)
  with assms(1) s show ?thesis by (simp add: pymax_ok)
qed

lemma transform_og_max_ok:
  assumes "transform_og m = Inr (m', max_og)"
  shows "max_ok max_og"
proof -
  have inner: "max_ok (snd s')"
    if "max_ok (snd s)" "efold (\<lambda>j. transform_cell i j) js s = Inr s'" for i js s s'
    using _ that
  proof (rule efold_invariant [where P = "\<lambda>s. max_ok (snd s)"])
    fix x t t' assume "max_ok (snd t)" "transform_cell i x t = Inr t'"
    then show "max_ok (snd t')" by (rule transform_cell_max_ok)
  qed
  have "max_ok (snd (m', max_og))"
    using _ _ assms [unfolded transform_og_def]
  proof (rule efold_invariant [where P = "\<lambda>s. max_ok (snd s)"])
    fix i t t' assume "max_ok (snd t)" "efold (\<lambda>j. transform_cell i j) [0..<i] t = Inr t'"
    then show "max_ok (snd t')" by (rule inner)
  next
    show "max_ok (snd (m, Fin (- big)))" by simp
  qed
  then show ?thesis by simp
qed

lemma max_ok_not_NInf: "max_ok v \<Longrightarrow> v \<noteq> NInf"
  by (cases v) simp_all

text \<open>C5 (amended): for a square matrix and a name for every row, \<open>WritePhylipMatrix\<close>
  writes the dimension and then one line per row, with for every cell the value
  \<open>phylip_cell max_og v\<close>: a value \<open>v\<close> that is not greater than \<open>-9e99\<close> is replaced by
  \<open>1.1 * max_og\<close>, and a resulting value strictly between 0 and \<open>1e-6\<close> by \<open>1e-6\<close>. No
  written value lies strictly between 0 and \<open>1e-6\<close>; none is minus infinity unless
  \<open>max_og\<close> is, and the \<open>max_og\<close> that the transform computes never is; and every finite
  written value appears in fixed-point form with six decimals.\<close>

theorem WritePhylipMatrix_substitutions:
  assumes "square n m" and "n \<le> length names"
  shows "WritePhylipMatrix m names max_og =
           Inr (str_nat n @ [CHR 0x0A] @
                concat (map (\<lambda>i. names ! i @ '' '' @
                                join_sp (map (\<lambda>j. fmt6 (phylip_cell max_og (m ! i ! j))) [0..<n])
                                @ [CHR 0x0A]) [0..<n]))
       \<and> (\<forall>v. phylip_cell max_og v =
                (let r = (if fgt v (Fin (- big)) then v else fmul (Fin (11 / 10)) max_og)
                 in if fgt r (Fin 0) \<and> flt r (Fin sliver) then Fin sliver else r)
              \<and> \<not> (fgt (phylip_cell max_og v) (Fin 0) \<and> flt (phylip_cell max_og v) (Fin sliver))
              \<and> (max_og \<noteq> NInf \<longrightarrow> phylip_cell max_og v \<noteq> NInf)
              \<and> (\<forall>x. phylip_cell max_og v = Fin x \<longrightarrow> is_fixed6 (fmt6 (phylip_cell max_og v))))
       \<and> (\<forall>m0 m1 mx. transform_og m0 = Inr (m1, mx) \<longrightarrow> mx \<noteq> NInf)"
proof -
  have a: "phylip_cell max_og v =
                (let r = (if fgt v (Fin (- big)) then v else fmul (Fin (11 / 10)) max_og)
                 in if fgt r (Fin 0) \<and> flt r (Fin sliver) then Fin sliver else r)" for v
    by (simp add: phylip_cell_def phylip_subst_def sliver_floor_def Let_def)
  have b: "\<not> (fgt (phylip_cell max_og v) (Fin 0) \<and> flt (phylip_cell max_og v) (Fin sliver))" for v
    unfolding phylip_cell_def by (rule sliver_floor_range)
  have c: "max_og \<noteq> NInf \<longrightarrow> phylip_cell max_og v \<noteq> NInf" for v
    using phylip_cell_not_NInf by blast
  have d: "\<forall>x. phylip_cell max_og v = Fin x \<longrightarrow> is_fixed6 (fmt6 (phylip_cell max_og v))" for v
    using fmt6_finite_fixed by blast
  have e: "\<forall>m0 m1 mx. transform_og m0 = Inr (m1, mx) \<longrightarrow> mx \<noteq> NInf"
    using transform_og_max_ok max_ok_not_NInf by blast
  from WritePhylipMatrix_square [OF assms, of max_og] a b c d e show ?thesis by blast
qed

text \<open>C5, as stated, fails for a cell that holds plus infinity: it is greater than \<open>-9e99\<close>, so it is
  not replaced, and \<open>"%.6f"\<close> writes it as \<open>inf\<close>, which is not in fixed-point form.\<close>

theorem WritePhylipMatrix_pinf:
  "WritePhylipMatrix [[PInf]] [''0_0''] (Fin 1) = Inr (''1'' @ [CHR 0x0A] @ ''0_0 inf'' @ [CHR 0x0A])
   \<and> \<not> is_fixed6 ''inf''"
  by (simp add: WritePhylipMatrix_def phylip_row_def nth_err_def get2_def phylip_subst_def
        sliver_floor_def flt_def str_nat.simps digit_char_def is_fixed6_def is_digit_def)

lemma fmt_fixed6_eval:
  assumes "round_half_even (\<bar>x\<bar> * 1000000) = int q"
    and "str_nat (q div 1000000) = ip" and "str_nat (q mod 1000000) = fp"
  shows "fmt_fixed6 x = (if x < 0 then ''-'' else []) @ ip @ ''.'' @ replicate (6 - length fp) (CHR ''0'') @ fp"
  using assms by (simp add: fmt_fixed6_def Let_def)

lemma round_half_even_int: "round_half_even (of_int k) = k"
  by (simp add: round_half_even_def)

lemma replicate_5: "replicate 5 c = [c, c, c, c, c]"
  by (simp add: eval_nat_numeral)

lemma str_nat_0: "str_nat 0 = ''0''"
  by (simp add: str_nat.simps digit_char_def)

lemma fmt6_0: "fmt6 (Fin 0) = ''0.000000''"
proof -
  have r: "round_half_even (\<bar>0\<bar> * 1000000) = int 0"
    using round_half_even_int [of 0] by simp
  show ?thesis
    using fmt_fixed6_eval [OF r, of "''0''" "''0''"] by (simp add: str_nat_0 replicate_5)
qed

lemma fmt6_sliver: "fmt6 (Fin (1 / 1000000)) = ''0.000001''"
proof -
  have r: "round_half_even (\<bar>1 / 1000000\<bar> * 1000000) = int 1"
    using round_half_even_int [of 1] by simp
  have s: "str_nat (Suc 0) = ''1''" by (simp add: str_nat.simps digit_char_def)
  show ?thesis
    using fmt_fixed6_eval [OF r, of "''0''" "''1''"] by (simp add: str_nat_0 s replicate_5)
qed

lemma fmt6_33: "fmt6 (Fin (33 / 10)) = ''3.300000''"
proof -
  have r: "round_half_even (\<bar>33 / 10\<bar> * 1000000) = int 3300000"
    using round_half_even_int [of 3300000] by simp
  have s: "str_nat 3 = ''3''" "str_nat 300000 = ''300000''"
    by (simp_all add: str_nat.simps digit_char_def)
  show ?thesis
    using fmt_fixed6_eval [OF r, of "''3''" "''300000''"] by (simp add: s)
qed

lemma fmt6_2: "fmt6 (Fin 2) = ''2.000000''"
proof -
  have r: "round_half_even (\<bar>2\<bar> * 1000000) = int 2000000"
    using round_half_even_int [of 2000000] by simp
  have s: "str_nat 2 = ''2''"
    by (simp_all add: str_nat.simps digit_char_def)
  show ?thesis
    using fmt_fixed6_eval [OF r, of "''2''" "''0''"] by (simp add: s str_nat_0 replicate_5)
qed

lemma upt_2: "[0..<2] = [0, 1]"
  by (simp add: upt_rec)

lemma str_nat_2: "str_nat 2 = ''2''"
  by (simp add: str_nat.simps digit_char_def)

theorem WritePhylipMatrix_substitutions_witness:
  "WritePhylipMatrix [[Fin 0, NInf], [Fin (1 / 2000000), Fin 2]] [''a'', ''b''] (Fin 3) =
     Inr (''2'' @ [CHR 0x0A] @ ''a 0.000000 3.300000'' @ [CHR 0x0A] @ ''b 0.000001 2.000000'' @ [CHR 0x0A])
   \<and> phylip_cell (Fin 3) NInf = Fin (33 / 10)
   \<and> is_fixed6 (fmt6 (phylip_cell (Fin 3) NInf))"
proof -
  let ?M = "[[Fin 0, NInf], [Fin (1 / 2000000), Fin 2]]"
  have sq: "square 2 ?M" by (simp add: square_def)
  have len: "2 \<le> length [''a'', ''b'']" by simp
  note W = WritePhylipMatrix_substitutions [OF sq len, of "Fin 3"]
  note V = W [THEN conjunct2, THEN conjunct1, rule_format, THEN conjunct1]
  have c1: "phylip_cell (Fin 3) NInf = Fin (33 / 10)"
    by (simp add: V flt_def sliver_def)
  have c0: "phylip_cell (Fin 3) (Fin 0) = Fin 0"
    by (simp add: V flt_def sliver_def big_def)
  have c2: "phylip_cell (Fin 3) (Fin (1 / 2000000)) = Fin (1 / 1000000)"
    by (simp add: V flt_def sliver_def big_def)
  have c3: "phylip_cell (Fin 3) (Fin 2) = Fin 2"
    by (simp add: V flt_def sliver_def big_def)
  have out: "WritePhylipMatrix ?M [''a'', ''b''] (Fin 3) =
     Inr (''2'' @ [CHR 0x0A] @ ''a 0.000000 3.300000'' @ [CHR 0x0A] @ ''b 0.000001 2.000000'' @ [CHR 0x0A])"
    unfolding W [THEN conjunct1] upt_2
    by (simp add: c0 c1 c2 c3 fmt6_0 fmt6_33 fmt6_sliver fmt6_2 str_nat_2 del: fmt6.simps)
  have "is_fixed6 (fmt6 (phylip_cell (Fin 3) NInf))"
    using W [THEN conjunct2, THEN conjunct1, rule_format, of NInf] c1 by blast
  with out c1 show ?thesis by blast
qed

lemma fmt6_half: "fmt6 (Fin (1 / 2)) = ''0.500000''"
proof -
  have r: "round_half_even (\<bar>1 / 2\<bar> * 1000000) = int 500000"
    using round_half_even_int [of 500000] by simp
  have s: "str_nat 500000 = ''500000''"
    by (simp add: str_nat.simps digit_char_def)
  show ?thesis
    using fmt_fixed6_eval [OF r, of "''0''" "''500000''"] by (simp add: s str_nat_0)
qed

lemma fmt6_11: "fmt6 (Fin (11 / 10)) = ''1.100000''"
proof -
  have r: "round_half_even (\<bar>11 / 10\<bar> * 1000000) = int 1100000"
    using round_half_even_int [of 1100000] by simp
  have s: "str_nat (Suc 0) = ''1''" "str_nat 100000 = ''100000''"
    by (simp_all add: str_nat.simps digit_char_def)
  show ?thesis
    using fmt_fixed6_eval [OF r, of "''1''" "''100000''"] by (simp add: s)
qed

lemma str_nat_Suc_Suc_0: "str_nat (Suc (Suc 0)) = ''2''"
  using str_nat_2 by (simp add: numeral_2_eq_2)

lemma species_cell_unfold:
  "species_cell v = (if fgt v (Fin 0) \<and> flt v (Fin sliver) then Fin sliver else v)"
  by (simp add: species_cell_def sliver_floor_def)

lemma writers_agree:
  assumes sq: "square (length speciesToUse) M" and big: "all_cells (\<lambda>v. fgt v (Fin (- big))) M"
  shows "WritePhylipMatrix M (map str_nat speciesToUse) max_og = write_species_matrix speciesToUse M"
proof -
  let ?n = "length speciesToUse"
  have cell: "phylip_cell max_og (M ! i ! j) = species_cell (M ! i ! j)" if "i < ?n" "j < ?n" for i j
    using all_cells_nth [OF big sq that] by (rule phylip_cell_kept)
  have row: "map (\<lambda>j. fmt6 (phylip_cell max_og (M ! i ! j))) [0..<?n] =
             map (\<lambda>j. fmt6 (species_cell (M ! i ! j))) [0..<?n]" if "i < ?n" for i
    using cell [OF that] by simp
  have eq: "map (\<lambda>i. map str_nat speciesToUse ! i @ '' '' @
                 join_sp (map (\<lambda>j. fmt6 (phylip_cell max_og (M ! i ! j))) [0..<?n]) @ [CHR 0x0A]) [0..<?n]
      = map (\<lambda>i. str_nat (speciesToUse ! i) @ '' '' @
                 join_sp (map (\<lambda>j. fmt6 (species_cell (M ! i ! j))) [0..<?n]) @ [CHR 0x0A]) [0..<?n]"
  proof (rule map_cong [OF refl])
    fix i assume "i \<in> set [0..<?n]"
    then have i: "i < ?n" by simp
    show "map str_nat speciesToUse ! i @ '' '' @
            join_sp (map (\<lambda>j. fmt6 (phylip_cell max_og (M ! i ! j))) [0..<?n]) @ [CHR 0x0A]
        = str_nat (speciesToUse ! i) @ '' '' @
            join_sp (map (\<lambda>j. fmt6 (species_cell (M ! i ! j))) [0..<?n]) @ [CHR 0x0A]"
      unfolding row [OF i] using i by simp
  qed
  have len: "?n \<le> length (map str_nat speciesToUse)" by simp
  show ?thesis
    unfolding WritePhylipMatrix_square [OF sq len] write_species_matrix_square [OF sq] eq
    by (rule refl)
qed

text \<open>C9, as stated, fails: the species matrix is written by a loop of its own in
  \<open>PrepareSpeciesTreeCommand\<close>, which has no replacement of the values not greater than
  \<open>-9e99\<close>. For a species pair without a sample the median is NaN and the file holds
  \<open>nan\<close>, where \<open>WritePhylipMatrix\<close> writes \<open>1.1 * max_og\<close> for the same matrix and labels.\<close>

theorem species_writer_no_sentinel:
  "PrepareSpeciesTreeCommand [0, 1] ''m'' ''t'' [[]] [(0, 1)] =
     Inr (''2'' @ [CHR 0x0A] @ ''0 0.000000 nan'' @ [CHR 0x0A] @ ''1 nan 0.000000'' @ [CHR 0x0A],
          ''fastme -i m -o t -N -w O -s'', ''t'')
   \<and> species_matrix [0, 1] [[]] [(0, 1)] = Inr [[Fin 0, NaN], [NaN, Fin 0]]
   \<and> WritePhylipMatrix [[Fin 0, NaN], [NaN, Fin 0]] [''0'', ''1''] (Fin 1) =
     Inr (''2'' @ [CHR 0x0A] @ ''0 0.000000 1.100000'' @ [CHR 0x0A] @ ''1 1.100000 0.000000'' @ [CHR 0x0A])"
proof -
  let ?M = "[[Fin 0, NaN], [NaN, Fin 0]]"
  have rep: "replicate 2 x = [x, x]" for x :: "'a"
    by (simp add: numeral_2_eq_2)
  have M: "species_matrix [0, 1] [[]] [(0, 1)] = Inr ?M"
    by (simp add: species_matrix_def np_median_def set2_def rep)
  have sq: "square (length [0::nat, 1]) ?M" by (simp add: square_def)
  have s1: "str_nat (Suc 0) = ''1''" by (simp add: str_nat.simps digit_char_def)
  have sc: "species_cell (Fin 0) = Fin 0" "species_cell NaN = NaN"
    by (simp_all add: species_cell_unfold)
  have w: "write_species_matrix [0, 1] ?M =
     Inr (''2'' @ [CHR 0x0A] @ ''0 0.000000 nan'' @ [CHR 0x0A] @ ''1 nan 0.000000'' @ [CHR 0x0A])"
    unfolding write_species_matrix_square [OF sq]
    by (simp add: upt_2 sc fmt6_0 str_nat_Suc_Suc_0 str_nat_0 s1 del: fmt6.simps(1))
  have pc: "phylip_cell (Fin 1) (Fin 0) = Fin 0" "phylip_cell (Fin 1) NaN = Fin (11 / 10)"
    by (simp_all add: phylip_cell_def phylip_subst_def sliver_floor_def flt_def sliver_def big_def)
  have sq2: "square 2 ?M" by (simp add: square_def)
  have p: "WritePhylipMatrix ?M [''0'', ''1''] (Fin 1) =
     Inr (''2'' @ [CHR 0x0A] @ ''0 0.000000 1.100000'' @ [CHR 0x0A] @ ''1 1.100000 0.000000'' @ [CHR 0x0A])"
    using WritePhylipMatrix_square [OF sq2, of "[''0'', ''1'']" "Fin 1"]
    by (simp add: upt_2 pc fmt6_0 fmt6_11 str_nat_2 del: fmt6.simps(1))
  have cmd: "PrepareSpeciesTreeCommand [0, 1] ''m'' ''t'' [[]] [(0, 1)] =
     Inr (''2'' @ [CHR 0x0A] @ ''0 0.000000 nan'' @ [CHR 0x0A] @ ''1 nan 0.000000'' @ [CHR 0x0A],
          ''fastme -i m -o t -N -w O -s'', ''t'')"
    by (simp add: PrepareSpeciesTreeCommand_def M [unfolded One_nat_def] w [unfolded One_nat_def])
  from cmd M p show ?thesis by blast
qed

text \<open>C9 (amended): the writer of the species matrix in \<open>PrepareSpeciesTreeCommand\<close>
  applies the floor at \<open>1e-6\<close> and the six-decimal format of \<open>WritePhylipMatrix\<close>, and no
  replacement of sentinels; for a matrix whose values are all greater than \<open>-9e99\<close> it
  writes exactly the text that \<open>WritePhylipMatrix\<close> writes for the same values and the
  species numbers as labels, whatever \<open>max_og\<close> is.\<close>

theorem species_writer_refines:
  assumes "square (length speciesToUse) M"
  shows "write_species_matrix speciesToUse M =
           Inr (str_nat (length speciesToUse) @ [CHR 0x0A] @
                concat (map (\<lambda>i. str_nat (speciesToUse ! i) @ '' '' @
                                join_sp (map (\<lambda>j. fmt6 (species_cell (M ! i ! j)))
                                           [0..<length speciesToUse])
                                @ [CHR 0x0A]) [0..<length speciesToUse]))
       \<and> (\<forall>v. species_cell v = (if fgt v (Fin 0) \<and> flt v (Fin sliver) then Fin sliver else v))
       \<and> (all_cells (\<lambda>v. fgt v (Fin (- big))) M \<longrightarrow>
            (\<forall>max_og. WritePhylipMatrix M (map str_nat speciesToUse) max_og =
                      write_species_matrix speciesToUse M))"
  using write_species_matrix_square [OF assms] species_cell_unfold writers_agree [OF assms]
  by blast

theorem species_writer_refines_witness:
  "WritePhylipMatrix [[Fin 0, Fin (1 / 2)], [Fin (1 / 2), Fin 0]] (map str_nat [0, 1]) (Fin 7) =
     write_species_matrix [0, 1] [[Fin 0, Fin (1 / 2)], [Fin (1 / 2), Fin 0]]
   \<and> write_species_matrix [0, 1] [[Fin 0, Fin (1 / 2)], [Fin (1 / 2), Fin 0]] =
     Inr (''2'' @ [CHR 0x0A] @ ''0 0.000000 0.500000'' @ [CHR 0x0A] @ ''1 0.500000 0.000000'' @ [CHR 0x0A])"
proof -
  let ?M = "[[Fin 0, Fin (1 / 2)], [Fin (1 / 2), Fin 0]]"
  have sq: "square (length [0::nat, 1]) ?M" by (simp add: square_def)
  have bg: "all_cells (\<lambda>v. fgt v (Fin (- big))) ?M" by (simp add: all_cells_def big_def)
  note W = species_writer_refines [OF sq]
  have s1: "str_nat (Suc 0) = ''1''" by (simp add: str_nat.simps digit_char_def)
  have sc: "species_cell (Fin 0) = Fin 0" "species_cell (Fin (1 / 2)) = Fin (1 / 2)"
    by (simp_all add: W [THEN conjunct2, THEN conjunct1, rule_format] flt_def sliver_def)
  have a: "WritePhylipMatrix ?M (map str_nat [0, 1]) (Fin 7) = write_species_matrix [0, 1] ?M"
    using W [THEN conjunct2, THEN conjunct2] bg by blast
  have b: "write_species_matrix [0, 1] ?M =
     Inr (''2'' @ [CHR 0x0A] @ ''0 0.000000 0.500000'' @ [CHR 0x0A] @ ''1 0.500000 0.000000'' @ [CHR 0x0A])"
    unfolding W [THEN conjunct1]
    by (simp add: upt_2 sc fmt6_0 fmt6_half str_nat_Suc_Suc_0 str_nat_0 s1 del: fmt6.simps(1))
  from a b show ?thesis by blast
qed

end
